theory Spec2Isabelle
  imports Main
begin

section \<open>Data model of \<open>use-map.ts\<close>\<close>

text \<open>
  A \<open>ConstructTreeNode\<close> of the SDK, reduced to the fields \<open>use-map.ts\<close> reads:
  \<open>node.path\<close>, \<open>node.constructInfo?.fqn\<close>, \<open>node.display?.hidden\<close> and
  \<open>node.children\<close>. An optional field is an \<open>option\<close>. The \<open>children\<close> object is
  the list of its (key, child) entries in enumeration order; an absent \<open>children\<close>
  object is the empty list, since every use in the source reads \<open>node.children ?? {}\<close>.
\<close>

datatype ConstructTreeNode =
  ConstructTreeNode
    (path: string)
    (fqn: "string option")
    (hidden: "bool option")
    (children: "(string \<times> ConstructTreeNode) list")

text \<open>\<open>Object.values(obj)\<close> and the property read \<open>obj?.[key]\<close>.\<close>

definition Object_values :: "(string \<times> 'a) list \<Rightarrow> 'a list" where
  "Object_values obj = map snd obj"

definition getProp :: "(string \<times> 'a) list \<Rightarrow> string \<Rightarrow> 'a option" where
  "getProp obj key = map_of obj key"

record RawConnectionData =
  rawSource :: string
  rawTarget :: string
  sourceOp :: "string option"
  targetOp :: "string option"
  connName :: string

record NodeInflight =
  inflightId :: string
  name :: string
  sourceOccupied :: bool
  targetOccupied :: bool

text \<open>The type \<open>NodeV2["type"]\<close> and the tagged union \<open>NodeV2\<close>.\<close>

datatype NodeType = TContainer | TAutoId | TFunction | TScheduler | TEndpoint | TConstruct

datatype NodeV2 =
  NContainer "string list"
  | NAutoId
  | NFunction
  | NScheduler
  | NEndpoint
  | NConstruct "NodeInflight list"

text \<open>An endpoint of a connection handed to \<open>bridgeConnections\<close>, and the connection.\<close>

record ConnectionNode =
  nodeId :: string
  nodeFqn :: "string option"
  operation :: "string option"

record Connection =
  source :: ConnectionNode
  target :: ConnectionNode

record ElkExtendedEdge =
  edgeId :: string
  sources :: "string list"
  targets :: "string list"

text \<open>
  JavaScript truthiness of a \<open>string | undefined\<close> and of a \<open>boolean | undefined\<close>:
  \<open>undefined\<close> and the empty string are falsy.
\<close>

definition truthyStr :: "string option \<Rightarrow> bool" where
  "truthyStr s = (case s of None \<Rightarrow> False | Some v \<Rightarrow> v \<noteq> [])"

definition truthyBool :: "bool option \<Rightarrow> bool" where
  "truthyBool b = (case b of None \<Rightarrow> False | Some v \<Rightarrow> v)"

text \<open>A template literal prints \<open>undefined\<close> as the text \<open>undefined\<close>.\<close>

definition templateStr :: "string option \<Rightarrow> string" where
  "templateStr s = (case s of None \<Rightarrow> ''undefined'' | Some v \<Rightarrow> v)"

section \<open>\<open>getNodeType\<close>\<close>

definition getNodeType :: "ConstructTreeNode \<Rightarrow> bool \<Rightarrow> NodeType" where
  "getNodeType node hasInflightConnections =
     (if fqn node = Some ''@winglang/sdk.cloud.Function'' then TFunction
      else if fqn node = Some ''@winglang/sdk.std.AutoIdResource'' then TAutoId
      else if fqn node = Some ''@winglang/sdk.cloud.Schedule'' then TScheduler
      else if fqn node = Some ''@winglang/sdk.cloud.Endpoint'' then TEndpoint
      else
        (let hasVisibleChildren =
               list_ex (\<lambda>child. \<not> truthyBool (hidden child)) (Object_values (children node))
         in if fqn node = Some ''@winglang/sdk.cloud.Api''
               \<or> hasInflightConnections \<or> \<not> hasVisibleChildren
            then TConstruct
            else TContainer))"

section \<open>\<open>getNodeInflights\<close>\<close>

text \<open>
  \<open>uniqBy\<close> of lodash: the array is scanned from the left; a value is kept when the
  key the iteratee computes for it has not been seen before.
\<close>

fun baseUniq :: "('a \<Rightarrow> 'b) \<Rightarrow> 'b list \<Rightarrow> 'a list \<Rightarrow> 'a list" where
  "baseUniq iteratee seen [] = []"
| "baseUniq iteratee seen (v # vs) =
     (if iteratee v \<in> set seen then baseUniq iteratee seen vs
      else v # baseUniq iteratee (seen @ [iteratee v]) vs)"

definition uniqBy :: "'a list \<Rightarrow> ('a \<Rightarrow> 'b) \<Rightarrow> 'a list" where
  "uniqBy array iteratee = baseUniq iteratee [] array"

text \<open>
  The two \<open>for\<close> statements of \<open>getNodeInflights\<close>: each pushes the operation of the
  filtered connections' endpoint when it is truthy.
\<close>

fun pushOps :: "(Connection \<Rightarrow> string option) \<Rightarrow> Connection list \<Rightarrow> string list \<Rightarrow> string list" where
  "pushOps opOf [] inflights = inflights"
| "pushOps opOf (connection # rest) inflights =
     (case opOf connection of
        None \<Rightarrow> pushOps opOf rest inflights
      | Some op \<Rightarrow>
          if op \<noteq> [] then pushOps opOf rest (inflights @ [op])
          else pushOps opOf rest inflights)"

definition getNodeInflights :: "ConstructTreeNode \<Rightarrow> Connection list \<Rightarrow> NodeInflight list" where
  "getNodeInflights node connections =
     (let inflights0 = [];
          inflights1 =
            pushOps (\<lambda>connection. operation (target connection))
              (filter (\<lambda>connection. nodeId (target connection) = path node) connections)
              inflights0;
          inflights2 =
            pushOps (\<lambda>connection. operation (source connection))
              (filter (\<lambda>connection. nodeId (source connection) = path node) connections)
              inflights1
      in map (\<lambda>connection.
                \<lparr> inflightId = path node @ ''#'' @ connection,
                  name = connection,
                  sourceOccupied =
                    list_ex (\<lambda>otherConnection.
                        nodeId (source otherConnection) = path node
                        \<and> operation (source otherConnection) = Some connection) connections,
                  targetOccupied =
                    list_ex (\<lambda>otherConnection.
                        nodeId (target otherConnection) = path node
                        \<and> operation (target otherConnection) = Some connection) connections \<rparr>)
           (uniqBy inflights2 (\<lambda>inflight. inflight)))"

section \<open>The hidden map and \<open>isNodeHidden\<close>\<close>

text \<open>
  \<open>traverse\<close> writes into the shared \<open>Map\<close>; the model threads the map through the
  calls. \<open>forceHidden\<close> is an optional argument, absent at the top-level calls.
\<close>

function traverse ::
  "(string \<rightharpoonup> bool) \<Rightarrow> ConstructTreeNode \<Rightarrow> bool option \<Rightarrow> (string \<rightharpoonup> bool)" where
  "traverse hm node forceHidden =
     (let hiddenV = (truthyBool forceHidden \<or> truthyBool (hidden node) \<or> False);
          hm1 = hm(path node \<mapsto> hiddenV)
      in fold (\<lambda>child hm2. traverse hm2 child (Some hiddenV))
           (Object_values (children node)) hm1)"
  by pat_completeness auto
termination
  apply (relation "measure (\<lambda>(hm, node, forceHidden). size node)")
   apply simp
  subgoal for hm node forceHidden hiddenV hm1 child
    by (cases node) (auto simp: Object_values_def less_Suc_eq_le intro!: size_list_estimation')
  done

declare traverse.simps [simp del]

definition hiddenMap :: "ConstructTreeNode option \<Rightarrow> (string \<rightharpoonup> bool)" where
  "hiddenMap rawTree =
     (let pseudoRoot =
            (case rawTree of None \<Rightarrow> None | Some tree \<Rightarrow> getProp (children tree) ''Default'')
      in fold (\<lambda>child hm. traverse hm child None)
           (Object_values (case pseudoRoot of None \<Rightarrow> [] | Some r \<Rightarrow> children r))
           Map.empty)"

text \<open>
  The regular expression \<open>/^(.+?)#/\<close>: the shortest non-empty prefix that is followed
  by \<open>#\<close>, where \<open>.\<close> matches any character but a line terminator. The function returns
  capture group 1, or \<open>None\<close> when there is no match. Characters are 8-bit here, so
  the line terminators are line feed and carriage return.
\<close>

definition isLineTerminator :: "char \<Rightarrow> bool" where
  "isLineTerminator c = (c = CHR 0x0A \<or> c = CHR 0x0D)"

fun matchNodePath :: "string \<Rightarrow> string \<Rightarrow> string option" where
  "matchNodePath acc [] = None"
| "matchNodePath acc (c # cs) =
     (if acc \<noteq> [] \<and> c = CHR ''#'' then Some acc
      else if isLineTerminator c then None
      else matchNodePath (acc @ [c]) cs)"

text \<open>The expression \<open>path.match(/^(.+?)#/)?.[1] ?? path\<close>.\<close>

definition nodePathOf :: "string \<Rightarrow> string" where
  "nodePathOf pathArg = (case matchNodePath [] pathArg of Some g \<Rightarrow> g | None \<Rightarrow> pathArg)"

definition isNodeHidden :: "(string \<rightharpoonup> bool) \<Rightarrow> string \<Rightarrow> bool" where
  "isNodeHidden hm pathArg = (let nodePath = nodePathOf pathArg in hm nodePath = Some True)"

section \<open>\<open>nodeFqns\<close> and \<open>nodeTypes\<close>\<close>

function processNode_nodeFqns ::
  "(string \<rightharpoonup> string option) \<Rightarrow> ConstructTreeNode \<Rightarrow> (string \<rightharpoonup> string option)" where
  "processNode_nodeFqns nodeTypesMap node =
     fold (\<lambda>child m. processNode_nodeFqns m child) (Object_values (children node))
       (nodeTypesMap(path node \<mapsto> fqn node))"
  by pat_completeness auto
termination
  apply (relation "measure (\<lambda>(m, node). size node)")
   apply simp
  subgoal for m node child
    by (cases node) (auto simp: Object_values_def less_Suc_eq_le intro!: size_list_estimation')
  done

declare processNode_nodeFqns.simps [simp del]

definition nodeFqns :: "ConstructTreeNode option \<Rightarrow> (string \<rightharpoonup> string option) option" where
  "nodeFqns rawTree =
     (case rawTree of None \<Rightarrow> None | Some tree \<Rightarrow> Some (processNode_nodeFqns Map.empty tree))"

text \<open>\<open>Map.get\<close> on a map whose values may be \<open>undefined\<close>.\<close>

definition mapGet :: "(string \<rightharpoonup> 'a option) \<Rightarrow> string \<Rightarrow> 'a option" where
  "mapGet m k = (case m k of None \<Rightarrow> None | Some v \<Rightarrow> v)"

function processNode_nodeTypes ::
  "RawConnectionData list option \<Rightarrow> (string \<rightharpoonup> NodeType) \<Rightarrow> ConstructTreeNode
     \<Rightarrow> (string \<rightharpoonup> NodeType)" where
  "processNode_nodeTypes rawConnections nodeTypesMap node =
     fold (\<lambda>child m. processNode_nodeTypes rawConnections m child)
       (Object_values (children node))
       (nodeTypesMap(path node \<mapsto>
          getNodeType node
            (case rawConnections of
               None \<Rightarrow> False
             | Some rcs \<Rightarrow>
                 list_ex (\<lambda>connection.
                     rawSource connection = path node \<or> rawTarget connection = path node) rcs)))"
  by pat_completeness auto
termination
  apply (relation "measure (\<lambda>(rcs, m, node). size node)")
   apply simp
  subgoal for rcs m node child
    by (cases node) (auto simp: Object_values_def less_Suc_eq_le intro!: size_list_estimation')
  done

declare processNode_nodeTypes.simps [simp del]

definition nodeTypes ::
  "ConstructTreeNode option \<Rightarrow> RawConnectionData list option \<Rightarrow> (string \<rightharpoonup> NodeType) option" where
  "nodeTypes rawTree rawConnections =
     (case rawTree of
        None \<Rightarrow> None
      | Some tree \<Rightarrow> Some (processNode_nodeTypes rawConnections Map.empty tree))"

section \<open>The connection bridger\<close>

text \<open>
  Modelled from the spec: the parent of a path. \<open>bridgeConnections\<close> lives in
  \<open>use-map.bridge-connections.js\<close>, which is not among the sources; the spec (3, 4.2)
  says that a path encodes ancestry and that bridging replaces a hidden path by its
  parent path. The spec does not name the separator; it is taken to be \<open>/\<close>, as in the
  construct paths \<open>root/Default/...\<close>. The parent is the path without its last segment,
  and a path without a separator is a root and has no parent.
\<close>

definition parentPath :: "string \<Rightarrow> string option" where
  "parentPath p =
     (if CHR ''/'' \<in> set p
      then Some (rev (tl (dropWhile (\<lambda>c. c \<noteq> CHR ''/'') (rev p))))
      else None)"

text \<open>
  Modelled from the spec: the ascent of one endpoint (4.2, steps 1 to 3). While the
  current path is hidden it is replaced by its parent path; the ascent stops at the
  first visible ancestor, or at the root. The operation of the endpoint is unchanged;
  so is its kind tag, of which the spec says nothing.
\<close>

function ascend :: "(ConnectionNode \<Rightarrow> bool) \<Rightarrow> ConnectionNode \<Rightarrow> ConnectionNode" where
  "ascend isHidden node =
     (if isHidden node
      then (case parentPath (nodeId node) of
              None \<Rightarrow> node
            | Some parent \<Rightarrow> ascend isHidden (node\<lparr>nodeId := parent\<rparr>))
      else node)"
  by pat_completeness auto
termination
  apply (relation "measure (\<lambda>(isHidden, node). length (nodeId node))")
   apply simp
  subgoal for isHidden node parent
  proof -
    assume some: "parentPath (nodeId node) = Some parent"
    let ?d = "dropWhile (\<lambda>c. c \<noteq> CHR ''/'') (rev (nodeId node))"
    have le: "length ?d \<le> length (nodeId node)"
      using length_dropWhile_le [of _ "rev (nodeId node)"] by simp
    from some have ne: "nodeId node \<noteq> []" and eq: "parent = rev (tl ?d)"
      by (auto simp: parentPath_def split: if_splits)
    from ne have "0 < length (nodeId node)"
      by simp
    with le have "length ?d - 1 < length (nodeId node)"
      by arith
    with eq have "length parent < length (nodeId node)"
      by simp
    then show ?thesis by simp
  qed
  done

declare ascend.simps [simp del]

text \<open>
  Modelled from the spec: \<open>bridgeConnections\<close> (4.2). Both endpoints of every
  connection ascend independently; a connection whose endpoints resolve to the same
  node is dropped; connections with the same connection id are kept once.
\<close>

definition bridgeConnections ::
  "Connection list \<Rightarrow> (ConnectionNode \<Rightarrow> bool) \<Rightarrow> (ConnectionNode \<Rightarrow> string)
     \<Rightarrow> (Connection \<Rightarrow> string) \<Rightarrow> Connection list" where
  "bridgeConnections conns isHidden getNodeId getConnId =
     uniqBy
       (filter (\<lambda>connection. getNodeId (source connection) \<noteq> getNodeId (target connection))
          (map (\<lambda>connection.
                  \<lparr> source = ascend isHidden (source connection),
                    target = ascend isHidden (target connection) \<rparr>) conns))
       getConnId"

section \<open>\<open>connections\<close>, \<open>getConnectionId\<close> and \<open>edges\<close>\<close>

definition connections ::
  "ConstructTreeNode option \<Rightarrow> RawConnectionData list option \<Rightarrow> Connection list option" where
  "connections rawTree rawConnections =
     (case rawConnections of
        None \<Rightarrow> None
      | Some rcs \<Rightarrow>
          (case nodeFqns rawTree of
             None \<Rightarrow> None
           | Some fqns \<Rightarrow>
               Some (bridgeConnections
                 (map (\<lambda>connection.
                         \<lparr> source =
                             \<lparr> nodeId = rawSource connection,
                               nodeFqn = mapGet fqns (rawSource connection),
                               operation = sourceOp connection \<rparr>,
                           target =
                             \<lparr> nodeId = rawTarget connection,
                               nodeFqn = mapGet fqns (rawTarget connection),
                               operation = targetOp connection \<rparr> \<rparr>)
                    (filter (\<lambda>connection.
                               sourceOp connection \<noteq> Some ''invokeAsync''
                               \<and> targetOp connection \<noteq> Some ''invokeAsync'') rcs))
                 (\<lambda>node. isNodeHidden (hiddenMap rawTree) (nodeId node))
                 (\<lambda>node. nodeId node)
                 (\<lambda>connection.
                    nodeId (source connection) @ ''#''
                    @ templateStr (operation (source connection)) @ ''##''
                    @ nodeId (target connection) @ ''#''
                    @ templateStr (operation (target connection))))))"

text \<open>The parameter \<open>type: "source" | "target"\<close> and its text in a template literal.\<close>

datatype EndType = SourceEnd | TargetEnd

definition endStr :: "EndType \<Rightarrow> string" where
  "endStr t = (case t of SourceEnd \<Rightarrow> ''source'' | TargetEnd \<Rightarrow> ''target'')"

definition getConnectionId ::
  "(string \<rightharpoonup> bool) \<Rightarrow> string \<Rightarrow> string option \<Rightarrow> string option \<Rightarrow> EndType \<Rightarrow> string" where
  "getConnectionId hm nodePath fqnArg opArg type =
     (if isNodeHidden hm nodePath then nodePath
      else if fqnArg = Some ''@winglang/sdk.cloud.Function''
        then nodePath @ ''#invoke#'' @ endStr type
      else if truthyStr opArg
        then nodePath @ ''#'' @ templateStr opArg @ ''#'' @ endStr type
      else nodePath @ ''#'' @ endStr type)"

definition edgeOf :: "(string \<rightharpoonup> bool) \<Rightarrow> Connection \<Rightarrow> ElkExtendedEdge" where
  "edgeOf hm connection =
     (let src = getConnectionId hm (nodeId (source connection)) (nodeFqn (source connection))
                  (operation (source connection)) SourceEnd;
          tgt = getConnectionId hm (nodeId (target connection)) (nodeFqn (target connection))
                  (operation (target connection)) TargetEnd
      in \<lparr> edgeId = src @ ''##'' @ tgt, sources = [src], targets = [tgt] \<rparr>)"

definition edges ::
  "ConstructTreeNode option \<Rightarrow> RawConnectionData list option \<Rightarrow> ElkExtendedEdge list" where
  "edges rawTree rawConnections =
     (case connections rawTree rawConnections of
        None \<Rightarrow> []
      | Some conns \<Rightarrow> map (edgeOf (hiddenMap rawTree)) conns)"

section \<open>\<open>nodeInfo\<close>\<close>

function processNode_nodeInfo ::
  "Connection list option \<Rightarrow> (string \<rightharpoonup> NodeV2) \<Rightarrow> ConstructTreeNode \<Rightarrow> (string \<rightharpoonup> NodeV2)" where
  "processNode_nodeInfo conns nodeMap node =
     (let nodeType =
            getNodeType node
              (case conns of
                 None \<Rightarrow> False
               | Some cs \<Rightarrow>
                   list_ex (\<lambda>connection.
                       nodeId (source connection) = path node
                       \<or> nodeId (target connection) = path node) cs);
          inflights = getNodeInflights node (case conns of None \<Rightarrow> [] | Some cs \<Rightarrow> cs);
          nodeMap1 =
            (case nodeType of
               TContainer \<Rightarrow>
                 nodeMap(path node \<mapsto>
                   NContainer (map (\<lambda>child. path child) (Object_values (children node))))
             | TAutoId \<Rightarrow> nodeMap(path node \<mapsto> NAutoId)
             | TFunction \<Rightarrow> nodeMap(path node \<mapsto> NFunction)
             | _ \<Rightarrow> nodeMap(path node \<mapsto> NConstruct inflights))
      in fold (\<lambda>child m. processNode_nodeInfo conns m child)
           (Object_values (children node)) nodeMap1)"
  by pat_completeness auto
termination
  apply (relation "measure (\<lambda>(conns, m, node). size node)")
   apply simp
  subgoal for conns m node nodeType inflights nodeMap1 child
    by (cases node) (auto simp: Object_values_def less_Suc_eq_le intro!: size_list_estimation')
  done

declare processNode_nodeInfo.simps [simp del]

definition nodeInfo ::
  "ConstructTreeNode option \<Rightarrow> RawConnectionData list option \<Rightarrow> (string \<rightharpoonup> NodeV2) option" where
  "nodeInfo rawTree rawConnections =
     (case rawTree of
        None \<Rightarrow> None
      | Some tree \<Rightarrow>
          (case rawConnections of
             None \<Rightarrow> None
           | Some rcs \<Rightarrow>
               Some (processNode_nodeInfo (connections rawTree rawConnections) Map.empty tree)))"

section \<open>Definitions used to state the properties\<close>

text \<open>
  The nodes a traversal \<open>processNode(rawTree)\<close> visits, in the order of the visits.
\<close>

function nodesOf :: "ConstructTreeNode \<Rightarrow> ConstructTreeNode list" where
  "nodesOf node = node # concat (map nodesOf (Object_values (children node)))"
  by pat_completeness auto
termination
  apply (relation "measure size")
   apply simp
  subgoal for node child
    by (cases node) (auto simp: Object_values_def less_Suc_eq_le intro!: size_list_estimation')
  done

declare nodesOf.simps [simp del]

text \<open>
  The nodes \<open>traverse\<close> visits, each with the value of \<open>hidden\<close> computed at the visit,
  when the node is entered with \<open>forceHidden = forced\<close>.
\<close>

function visited :: "bool \<Rightarrow> ConstructTreeNode \<Rightarrow> (ConstructTreeNode \<times> bool) list" where
  "visited forced node =
     (node, forced \<or> truthyBool (hidden node))
       # concat (map (visited (forced \<or> truthyBool (hidden node)))
                  (Object_values (children node)))"
  by pat_completeness auto
termination
  apply (relation "measure (\<lambda>(forced, node). size node)")
   apply simp
  subgoal for forced node child
    by (cases node) (auto simp: Object_values_def less_Suc_eq_le intro!: size_list_estimation')
  done

declare visited.simps [simp del]

text \<open>A sequence of \<open>Map.set\<close> calls.\<close>

definition setAll :: "(string \<times> 'v) list \<Rightarrow> (string \<rightharpoonup> 'v) \<Rightarrow> (string \<rightharpoonup> 'v)" where
  "setAll kvs m = fold (\<lambda>kv m'. m'(fst kv \<mapsto> snd kv)) kvs m"

text \<open>
  The nodes at which the hidden map's traversal starts (the children of the
  \<open>Default\<close> child of the tree), and all nodes it visits.
\<close>

definition traversedRoots :: "ConstructTreeNode option \<Rightarrow> ConstructTreeNode list" where
  "traversedRoots rawTree =
     Object_values
       (case (case rawTree of None \<Rightarrow> None | Some tree \<Rightarrow> getProp (children tree) ''Default'') of
          None \<Rightarrow> []
        | Some r \<Rightarrow> children r)"

definition visibilityNodes :: "ConstructTreeNode option \<Rightarrow> ConstructTreeNode list" where
  "visibilityNodes rawTree = concat (map nodesOf (traversedRoots rawTree))"

text \<open>The reads \<open>nodeTypes?.get(p)\<close> and \<open>nodeInfo?.get(p)\<close> of the returned maps.\<close>

definition roleAt ::
  "ConstructTreeNode option \<Rightarrow> RawConnectionData list option \<Rightarrow> string \<Rightarrow> NodeType option" where
  "roleAt rawTree rawConnections p =
     (case nodeTypes rawTree rawConnections of None \<Rightarrow> None | Some m \<Rightarrow> m p)"

definition descriptorAt ::
  "ConstructTreeNode option \<Rightarrow> RawConnectionData list option \<Rightarrow> string \<Rightarrow> NodeV2 option" where
  "descriptorAt rawTree rawConnections p =
     (case nodeInfo rawTree rawConnections of None \<Rightarrow> None | Some m \<Rightarrow> m p)"

text \<open>
  The inflight aggregator as the spec words it (4.4): the operation names at the
  endpoint \<open>endpoint\<close> of the connections whose endpoint is the path \<open>p\<close>, and the
  deduplication that keeps the first occurrence of every name.
\<close>

definition operationNames ::
  "(Connection \<Rightarrow> ConnectionNode) \<Rightarrow> string \<Rightarrow> Connection list \<Rightarrow> string list" where
  "operationNames endpoint p conns =
     map (\<lambda>c. templateStr (operation (endpoint c)))
       (filter (\<lambda>c. nodeId (endpoint c) = p \<and> truthyStr (operation (endpoint c))) conns)"

fun firstSeen :: "'a list \<Rightarrow> 'a list" where
  "firstSeen [] = []"
| "firstSeen (x # xs) = x # firstSeen (removeAll x xs)"

text \<open>
  The tree classifier as the spec words it (4.3): the incidence is that of the bridged
  connections, and a child is visible when it is not effectively hidden.
\<close>

definition classify_spec :: "(string \<rightharpoonup> bool) \<Rightarrow> Connection list \<Rightarrow> ConstructTreeNode \<Rightarrow> NodeType" where
  "classify_spec hm bridged node =
     (if fqn node = Some ''@winglang/sdk.cloud.Function'' then TFunction
      else if fqn node = Some ''@winglang/sdk.std.AutoIdResource'' then TAutoId
      else if fqn node = Some ''@winglang/sdk.cloud.Schedule'' then TScheduler
      else if fqn node = Some ''@winglang/sdk.cloud.Endpoint'' then TEndpoint
      else if fqn node = Some ''@winglang/sdk.cloud.Api''
              \<or> list_ex (\<lambda>c. nodeId (source c) = path node \<or> nodeId (target c) = path node) bridged
              \<or> \<not> list_ex (\<lambda>child. \<not> isNodeHidden hm (path child)) (Object_values (children node))
        then TConstruct
      else TContainer)"

text \<open>
  The node descriptor as the spec words it (3): the descriptor carries the tag of the
  role.
\<close>

definition descriptor_spec :: "NodeType \<Rightarrow> ConstructTreeNode \<Rightarrow> Connection list \<Rightarrow> NodeV2" where
  "descriptor_spec role node bridged =
     (case role of
        TContainer \<Rightarrow> NContainer (map path (Object_values (children node)))
      | TAutoId \<Rightarrow> NAutoId
      | TFunction \<Rightarrow> NFunction
      | TScheduler \<Rightarrow> NScheduler
      | TEndpoint \<Rightarrow> NEndpoint
      | TConstruct \<Rightarrow> NConstruct (getNodeInflights node bridged))"

text \<open>
  The suffix stripping as the spec words it (6): everything from the first \<open>#\<close> is
  the operation suffix.
\<close>

definition stripOperation_spec :: "string \<Rightarrow> string" where
  "stripOperation_spec p = takeWhile (\<lambda>c. c \<noteq> CHR ''#'') p"

text \<open>
  A path \<open>q\<close> is the path \<open>p\<close> or one of its ancestors: \<open>p\<close> continues \<open>q\<close> with a
  separator.
\<close>

definition isAncestorOrSelf :: "string \<Rightarrow> string \<Rightarrow> bool" where
  "isAncestorOrSelf q p = (q = p \<or> take (Suc (length q)) p = q @ ''/'')"

section \<open>Example inputs\<close>

definition leaf :: "string \<Rightarrow> string option \<Rightarrow> bool option \<Rightarrow> ConstructTreeNode" where
  "leaf p k h = ConstructTreeNode p k h []"

definition exA :: ConstructTreeNode where
  "exA = ConstructTreeNode ''root/Default/A'' None (Some True)
           [(''B'', leaf ''root/Default/A/B'' None None)]"

definition exF :: ConstructTreeNode where
  "exF = leaf ''root/Default/F'' (Some ''@winglang/sdk.cloud.Function'') None"

definition exS :: ConstructTreeNode where
  "exS = leaf ''root/Default/S'' (Some ''@winglang/sdk.cloud.Schedule'') None"

definition exE :: ConstructTreeNode where
  "exE = leaf ''root/Default/E'' (Some ''@winglang/sdk.cloud.Endpoint'') None"

definition exQ :: ConstructTreeNode where
  "exQ = ConstructTreeNode ''root/Default/Q'' None None
           [(''C'', leaf ''root/Default/Q/C'' None None)]"

definition exP :: ConstructTreeNode where
  "exP = ConstructTreeNode ''root/Default/P'' None None
           [(''D'', leaf ''root/Default/P/D'' None None)]"

definition exTree :: ConstructTreeNode where
  "exTree = ConstructTreeNode ''root'' None None
     [(''Default'', ConstructTreeNode ''root/Default'' None None
        [(''A'', exA), (''F'', exF), (''S'', exS), (''Q'', exQ), (''P'', exP), (''E'', exE)])]"

definition rawConn :: "string \<Rightarrow> string option \<Rightarrow> string \<Rightarrow> string option \<Rightarrow> RawConnectionData" where
  "rawConn s sop t tgtOp =
     \<lparr> rawSource = s, rawTarget = t, sourceOp = sop, targetOp = tgtOp, connName = ''call'' \<rparr>"

definition exRaws :: "RawConnectionData list" where
  "exRaws =
     [rawConn ''root/Default/A/B'' (Some ''get'') ''root/Default/F'' (Some ''invoke''),
      rawConn ''root/Default/Q'' None ''root/Default/F'' (Some ''handle''),
      rawConn ''root/Default/Q'' None ''root/Default/F'' (Some ''invoke''),
      rawConn ''root/Default/P'' None ''root/Default/F'' (Some ''invokeAsync'')]"

definition conn :: "string \<Rightarrow> string option \<Rightarrow> string \<Rightarrow> string option \<Rightarrow> Connection" where
  "conn s sop t tgtOp =
     \<lparr> source = \<lparr> nodeId = s, nodeFqn = None, operation = sop \<rparr>,
       target = \<lparr> nodeId = t, nodeFqn = None, operation = tgtOp \<rparr> \<rparr>"

definition exConns :: "Connection list" where
  "exConns =
     [conn ''root/Default/Q'' (Some ''put'') ''root/Default/S'' (Some ''tick''),
      conn ''root/Default/S'' (Some ''tick'') ''root/Default/Q'' (Some ''get''),
      conn ''root/Default/Q'' None ''root/Default/P'' (Some []),
      conn ''root/Default/S'' (Some ''get'') ''root/Default/Q'' (Some ''put'')]"

text \<open>The bridged connections of the example tree and its raw connections.\<close>

definition exBridged :: "Connection list" where
  "exBridged =
     [\<lparr> source = \<lparr> nodeId = ''root/Default'', nodeFqn = None, operation = Some ''get'' \<rparr>,
        target = \<lparr> nodeId = ''root/Default/F'',
                   nodeFqn = Some ''@winglang/sdk.cloud.Function'',
                   operation = Some ''invoke'' \<rparr> \<rparr>,
      \<lparr> source = \<lparr> nodeId = ''root/Default/Q'', nodeFqn = None, operation = None \<rparr>,
        target = \<lparr> nodeId = ''root/Default/F'',
                   nodeFqn = Some ''@winglang/sdk.cloud.Function'',
                   operation = Some ''handle'' \<rparr> \<rparr>,
      \<lparr> source = \<lparr> nodeId = ''root/Default/Q'', nodeFqn = None, operation = None \<rparr>,
        target = \<lparr> nodeId = ''root/Default/F'',
                   nodeFqn = Some ''@winglang/sdk.cloud.Function'',
                   operation = Some ''invoke'' \<rparr> \<rparr>]"

text \<open>A tree whose only node in the hidden map has a path that starts with \<open>#\<close>.\<close>

definition exHashTree :: ConstructTreeNode where
  "exHashTree = ConstructTreeNode ''root'' None None
     [(''Default'', ConstructTreeNode ''root/Default'' None None
        [(''#a'', leaf ''#a'' None (Some True))])]"

section \<open>Lemmas about the helpers of \<open>getNodeInflights\<close>\<close>

lemma pushOps_eq:
  "pushOps opOf cs acc =
     acc @ map (\<lambda>c. templateStr (opOf c)) (filter (\<lambda>c. truthyStr (opOf c)) cs)"
  by (induction cs arbitrary: acc) (auto simp: truthyStr_def templateStr_def split: option.splits)

lemma pushOps_filter:
  "pushOps (\<lambda>c. operation (endpoint c)) (filter (\<lambda>c. nodeId (endpoint c) = p) cs) acc
     = acc @ operationNames endpoint p cs"
  unfolding pushOps_eq operationNames_def
  by (induction cs) auto

lemma set_firstSeen: "set (firstSeen xs) = set xs"
  by (induction xs rule: firstSeen.induct) auto

lemma distinct_firstSeen: "distinct (firstSeen xs)"
  by (induction xs rule: firstSeen.induct) (auto simp: set_firstSeen)

lemma baseUniq_firstSeen:
  "baseUniq (\<lambda>x. x) seen xs = firstSeen (filter (\<lambda>x. x \<notin> set seen) xs)"
proof (induction xs arbitrary: seen)
  case Nil
  show ?case by simp
next
  case (Cons x xs)
  have "removeAll x (filter (\<lambda>y. y \<notin> set seen) xs) = filter (\<lambda>y. y \<notin> set (seen @ [x])) xs"
    by (induction xs) auto
  with Cons show ?case by simp
qed

lemma uniqBy_firstSeen: "uniqBy xs (\<lambda>x. x) = firstSeen xs"
  by (simp add: uniqBy_def baseUniq_firstSeen)

lemma set_baseUniq: "set (baseUniq f seen xs) \<subseteq> set xs"
  by (induction xs arbitrary: seen) auto

lemma set_uniqBy: "set (uniqBy xs f) \<subseteq> set xs"
  by (simp add: uniqBy_def set_baseUniq)

lemma names_getNodeInflights:
  "map name (getNodeInflights node conns) =
     firstSeen (operationNames target (path node) conns @ operationNames source (path node) conns)"
  by (simp add: getNodeInflights_def Let_def pushOps_filter uniqBy_firstSeen comp_def)

lemma truthy_template_iff:
  "(truthyStr opt \<and> x = templateStr opt) \<longleftrightarrow> (x \<noteq> [] \<and> opt = Some x)"
  by (cases opt) (auto simp: truthyStr_def templateStr_def)

lemma in_operationNames:
  "x \<in> set (operationNames endpoint p conns) \<longleftrightarrow>
     x \<noteq> [] \<and> (\<exists>c \<in> set conns. nodeId (endpoint c) = p \<and> operation (endpoint c) = Some x)"
proof -
  have "x \<in> set (operationNames endpoint p conns) \<longleftrightarrow>
          (\<exists>c \<in> set conns. nodeId (endpoint c) = p \<and>
             (truthyStr (operation (endpoint c)) \<and> x = templateStr (operation (endpoint c))))"
    unfolding operationNames_def by auto
  then show ?thesis
    unfolding truthy_template_iff by blast
qed

lemma operationNames_Nil:
  "\<forall>c \<in> set conns. nodeId (endpoint c) \<noteq> p \<Longrightarrow> operationNames endpoint p conns = []"
  by (induction conns) (auto simp: operationNames_def)

lemma getNodeInflights_fields:
  assumes "r \<in> set (getNodeInflights node conns)"
  shows "inflightId r = path node @ ''#'' @ name r"
    and "sourceOccupied r \<longleftrightarrow>
           (\<exists>c \<in> set conns. nodeId (source c) = path node \<and> operation (source c) = Some (name r))"
    and "targetOccupied r \<longleftrightarrow>
           (\<exists>c \<in> set conns. nodeId (target c) = path node \<and> operation (target c) = Some (name r))"
  using assms by (auto simp: getNodeInflights_def Let_def list_ex_iff)

lemma getNodeInflights_alt:
  "getNodeInflights node conns =
     map (\<lambda>x. \<lparr> inflightId = path node @ ''#'' @ x, name = x,
                sourceOccupied =
                  (\<exists>c \<in> set conns. nodeId (source c) = path node \<and> operation (source c) = Some x),
                targetOccupied =
                  (\<exists>c \<in> set conns. nodeId (target c) = path node \<and> operation (target c) = Some x) \<rparr>)
       (firstSeen (operationNames target (path node) conns
                     @ operationNames source (path node) conns))"
  by (simp add: getNodeInflights_def Let_def pushOps_filter uniqBy_firstSeen list_ex_iff)

lemma operationNames_drop:
  assumes "nodeId (endpoint c) = p \<longrightarrow> \<not> truthyStr (operation (endpoint c))"
  shows "operationNames endpoint p (xs @ c # ys) = operationNames endpoint p (xs @ ys)"
  using assms by (auto simp: operationNames_def)

lemma operationNames_absent:
  assumes "\<forall>c \<in> set conns. nodeId (endpoint c) = p \<longrightarrow> \<not> truthyStr (operation (endpoint c))"
  shows "operationNames endpoint p conns = []"
  using assms by (induction conns) (auto simp: operationNames_def)

section \<open>The inflight aggregator\<close>

text \<open>
  C2. For every node and every list of bridged connections, the names of the records
  of \<open>getNodeInflights\<close> are the operation names at the target endpoints that are the
  node, followed by those at the source endpoints that are the node, each name kept at
  its first occurrence only: the names are distinct, and they are exactly the names that
  occur at an endpoint of a connection incident to the node. Every record has the id
  \<open>path#name\<close>, \<open>sourceOccupied\<close> tells whether some connection has the node as source
  with that operation, \<open>targetOccupied\<close> the same for the target. A node with no incident
  connection has no record.
\<close>

theorem getNodeInflights_spec:
  "map name (getNodeInflights node conns) =
     firstSeen (operationNames target (path node) conns @ operationNames source (path node) conns)
   \<and> distinct (map name (getNodeInflights node conns))
   \<and> set (map name (getNodeInflights node conns)) =
       {opName. opName \<noteq> [] \<and>
          (\<exists>c \<in> set conns.
              (nodeId (target c) = path node \<and> operation (target c) = Some opName)
              \<or> (nodeId (source c) = path node \<and> operation (source c) = Some opName))}
   \<and> (\<forall>r \<in> set (getNodeInflights node conns).
         inflightId r = path node @ ''#'' @ name r
         \<and> (sourceOccupied r \<longleftrightarrow>
              (\<exists>c \<in> set conns. nodeId (source c) = path node
                  \<and> operation (source c) = Some (name r)))
         \<and> (targetOccupied r \<longleftrightarrow>
              (\<exists>c \<in> set conns. nodeId (target c) = path node
                  \<and> operation (target c) = Some (name r))))
   \<and> ((\<forall>c \<in> set conns. nodeId (source c) \<noteq> path node \<and> nodeId (target c) \<noteq> path node)
        \<longrightarrow> getNodeInflights node conns = [])"
proof (intro conjI)
  show names: "map name (getNodeInflights node conns) =
     firstSeen (operationNames target (path node) conns @ operationNames source (path node) conns)"
    by (rule names_getNodeInflights)
  show "distinct (map name (getNodeInflights node conns))"
    by (simp only: names distinct_firstSeen)
  show "set (map name (getNodeInflights node conns)) =
       {opName. opName \<noteq> [] \<and>
          (\<exists>c \<in> set conns.
              (nodeId (target c) = path node \<and> operation (target c) = Some opName)
              \<or> (nodeId (source c) = path node \<and> operation (source c) = Some opName))}"
    unfolding names set_firstSeen set_append using in_operationNames by blast
  show "\<forall>r \<in> set (getNodeInflights node conns).
         inflightId r = path node @ ''#'' @ name r
         \<and> (sourceOccupied r \<longleftrightarrow>
              (\<exists>c \<in> set conns. nodeId (source c) = path node
                  \<and> operation (source c) = Some (name r)))
         \<and> (targetOccupied r \<longleftrightarrow>
              (\<exists>c \<in> set conns. nodeId (target c) = path node
                  \<and> operation (target c) = Some (name r)))"
    using getNodeInflights_fields by blast
  show "(\<forall>c \<in> set conns. nodeId (source c) \<noteq> path node \<and> nodeId (target c) \<noteq> path node)
        \<longrightarrow> getNodeInflights node conns = []"
  proof
    assume none: "\<forall>c \<in> set conns. nodeId (source c) \<noteq> path node \<and> nodeId (target c) \<noteq> path node"
    then have "operationNames target (path node) conns = []"
      and "operationNames source (path node) conns = []"
      by (simp_all add: operationNames_Nil)
    with names have "map name (getNodeInflights node conns) = []" by simp
    then show "getNodeInflights node conns = []" by simp
  qed
qed

text \<open>
  The node \<open>Q\<close> is the target of operations \<open>get\<close> and \<open>put\<close> and the source of \<open>put\<close>:
  two records, the target names first. The node \<open>F\<close> has no incident connection.
\<close>

theorem getNodeInflights_spec_witness:
  "getNodeInflights exQ exConns =
     [\<lparr> inflightId = ''root/Default/Q#get'', name = ''get'',
        sourceOccupied = False, targetOccupied = True \<rparr>,
      \<lparr> inflightId = ''root/Default/Q#put'', name = ''put'',
        sourceOccupied = True, targetOccupied = True \<rparr>]
   \<and> list_all (\<lambda>c. nodeId (source c) \<noteq> path exF \<and> nodeId (target c) \<noteq> path exF) exConns
   \<and> getNodeInflights exF exConns = []"
proof -
  note spec = getNodeInflights_spec [of exQ exConns]
  have none: "\<forall>c \<in> set exConns. nodeId (source c) \<noteq> path exF \<and> nodeId (target c) \<noteq> path exF"
    by (simp add: exConns_def conn_def exF_def leaf_def)
  have ops: "firstSeen (operationNames target (path exQ) exConns
               @ operationNames source (path exQ) exConns) = [''get'', ''put'']"
    by (simp add: operationNames_def exConns_def conn_def exQ_def truthyStr_def templateStr_def)
  with spec have names: "map name (getNodeInflights exQ exConns) = [''get'', ''put'']"
    by simp
  then obtain r1 r2 where rs: "getNodeInflights exQ exConns = [r1, r2]"
    and n1: "name r1 = ''get''" and n2: "name r2 = ''put''"
    by (auto simp: map_eq_Cons_conv)
  have occ:
    "(\<exists>c \<in> set exConns. nodeId (source c) = ''root/Default/Q''
        \<and> operation (source c) = Some ''get'') = False"
    "(\<exists>c \<in> set exConns. nodeId (target c) = ''root/Default/Q''
        \<and> operation (target c) = Some ''get'') = True"
    "(\<exists>c \<in> set exConns. nodeId (source c) = ''root/Default/Q''
        \<and> operation (source c) = Some ''put'') = True"
    "(\<exists>c \<in> set exConns. nodeId (target c) = ''root/Default/Q''
        \<and> operation (target c) = Some ''put'') = True"
    by (simp_all add: exConns_def conn_def)
  have p: "path exQ = ''root/Default/Q''"
    by (simp add: exQ_def)
  from spec have fields: "\<forall>r \<in> set (getNodeInflights exQ exConns).
         inflightId r = path exQ @ ''#'' @ name r
         \<and> (sourceOccupied r \<longleftrightarrow>
              (\<exists>c \<in> set exConns. nodeId (source c) = path exQ
                  \<and> operation (source c) = Some (name r)))
         \<and> (targetOccupied r \<longleftrightarrow>
              (\<exists>c \<in> set exConns. nodeId (target c) = path exQ
                  \<and> operation (target c) = Some (name r)))"
    by blast
  from fields n1 n2
  have "inflightId r1 = ''root/Default/Q#get''" "\<not> sourceOccupied r1" "targetOccupied r1"
    and "inflightId r2 = ''root/Default/Q#put''" "sourceOccupied r2" "targetOccupied r2"
    by (simp_all add: rs occ p)
  with n1 n2 have "r1 = \<lparr> inflightId = ''root/Default/Q#get'', name = ''get'',
        sourceOccupied = False, targetOccupied = True \<rparr>"
    and "r2 = \<lparr> inflightId = ''root/Default/Q#put'', name = ''put'',
        sourceOccupied = True, targetOccupied = True \<rparr>"
    by (auto intro: NodeInflight.equality)
  moreover from getNodeInflights_spec [of exF exConns] none
  have "getNodeInflights exF exConns = []"
    by blast
  ultimately show ?thesis
    using rs none by (simp add: list_all_iff)
qed

text \<open>
  C10. A record is created only for an operation that is a non-empty string: every
  record has a non-empty name; a connection whose operation is absent (\<open>undefined\<close> or
  the empty string) at each of its endpoints that is the node changes nothing in the
  node's records; and a node all of whose incident connections have no operation at
  the node's endpoint has no record, although it takes part in connections.
\<close>

theorem getNodeInflights_absent_operation:
  "(\<forall>r \<in> set (getNodeInflights node conns). name r \<noteq> [])
   \<and> ((nodeId (target c) = path node \<longrightarrow> \<not> truthyStr (operation (target c)))
        \<and> (nodeId (source c) = path node \<longrightarrow> \<not> truthyStr (operation (source c)))
       \<longrightarrow> getNodeInflights node (xs @ c # ys) = getNodeInflights node (xs @ ys))
   \<and> ((\<forall>c \<in> set conns.
          (nodeId (target c) = path node \<longrightarrow> \<not> truthyStr (operation (target c)))
          \<and> (nodeId (source c) = path node \<longrightarrow> \<not> truthyStr (operation (source c))))
       \<longrightarrow> getNodeInflights node conns = [])"
proof (intro conjI impI)
  show "\<forall>r \<in> set (getNodeInflights node conns). name r \<noteq> []"
  proof
    fix r assume "r \<in> set (getNodeInflights node conns)"
    then have "name r \<in> set (map name (getNodeInflights node conns))"
      by simp
    then have "name r \<in> set (operationNames target (path node) conns)
                 \<or> name r \<in> set (operationNames source (path node) conns)"
      by (simp add: names_getNodeInflights set_firstSeen)
    then show "name r \<noteq> []"
      by (auto simp: in_operationNames)
  qed
next
  assume absent: "(nodeId (target c) = path node \<longrightarrow> \<not> truthyStr (operation (target c)))
        \<and> (nodeId (source c) = path node \<longrightarrow> \<not> truthyStr (operation (source c)))"
  let ?names = "firstSeen (operationNames target (path node) (xs @ ys)
                  @ operationNames source (path node) (xs @ ys))"
  have names: "firstSeen (operationNames target (path node) (xs @ c # ys)
                  @ operationNames source (path node) (xs @ c # ys)) = ?names"
    using absent by (simp add: operationNames_drop)
  have nonempty: "x \<noteq> []" if "x \<in> set ?names" for x
    using that by (auto simp: set_firstSeen in_operationNames)
  have src: "(\<exists>d \<in> set (xs @ c # ys). nodeId (source d) = path node \<and> operation (source d) = Some x)
           \<longleftrightarrow> (\<exists>d \<in> set (xs @ ys). nodeId (source d) = path node \<and> operation (source d) = Some x)"
    if "x \<noteq> []" for x
    using absent that by (auto simp: truthyStr_def)
  have tgt: "(\<exists>d \<in> set (xs @ c # ys). nodeId (target d) = path node \<and> operation (target d) = Some x)
           \<longleftrightarrow> (\<exists>d \<in> set (xs @ ys). nodeId (target d) = path node \<and> operation (target d) = Some x)"
    if "x \<noteq> []" for x
    using absent that by (auto simp: truthyStr_def)
  show "getNodeInflights node (xs @ c # ys) = getNodeInflights node (xs @ ys)"
    unfolding getNodeInflights_alt names
    by (rule map_cong [OF refl]) (simp only: src [OF nonempty] tgt [OF nonempty])
next
  assume "\<forall>c \<in> set conns.
          (nodeId (target c) = path node \<longrightarrow> \<not> truthyStr (operation (target c)))
          \<and> (nodeId (source c) = path node \<longrightarrow> \<not> truthyStr (operation (source c)))"
  then have "operationNames target (path node) conns = []"
    and "operationNames source (path node) conns = []"
    by (simp_all add: operationNames_absent)
  then show "getNodeInflights node conns = []"
    by (simp add: getNodeInflights_alt)
qed

text \<open>
  The node \<open>P\<close> is the target of one connection, whose target operation is the empty
  string, and \<open>S\<close> is not an endpoint of that connection.
\<close>

theorem getNodeInflights_absent_operation_witness:
  "getNodeInflights exP exConns = []
   \<and> list_ex (\<lambda>c. nodeId (target c) = path exP) exConns
   \<and> getNodeInflights exS exConns = getNodeInflights exS (take 2 exConns @ drop 3 exConns)
   \<and> getNodeInflights exS exConns \<noteq> []
   \<and> list_all (\<lambda>r. name r \<noteq> []) (getNodeInflights exS exConns)"
proof -
  let ?c = "conn ''root/Default/Q'' None ''root/Default/P'' (Some [])"
  let ?xs = "take 2 exConns" and ?ys = "drop 3 exConns"
  have split: "exConns = ?xs @ ?c # ?ys"
    by (simp add: exConns_def)
  have absentP: "\<forall>c \<in> set exConns.
          (nodeId (target c) = path exP \<longrightarrow> \<not> truthyStr (operation (target c)))
          \<and> (nodeId (source c) = path exP \<longrightarrow> \<not> truthyStr (operation (source c)))"
    by (simp add: exConns_def conn_def exP_def truthyStr_def)
  have absentS: "(nodeId (target ?c) = path exS \<longrightarrow> \<not> truthyStr (operation (target ?c)))
        \<and> (nodeId (source ?c) = path exS \<longrightarrow> \<not> truthyStr (operation (source ?c)))"
    by (simp add: conn_def exS_def leaf_def)
  have incident: "list_ex (\<lambda>c. nodeId (target c) = path exP) exConns"
    by (simp add: exConns_def conn_def exP_def)
  have nonempty: "getNodeInflights exS exConns \<noteq> []"
    by (simp add: getNodeInflights_alt operationNames_def exConns_def conn_def exS_def leaf_def
          truthyStr_def templateStr_def)
  from getNodeInflights_absent_operation [of exP exConns ?c ?xs ?ys] absentP
  have "getNodeInflights exP exConns = []"
    by blast
  moreover from getNodeInflights_absent_operation [of exS exConns ?c ?xs ?ys] absentS
  have "getNodeInflights exS (?xs @ ?c # ?ys) = getNodeInflights exS (?xs @ ?ys)"
    and "\<forall>r \<in> set (getNodeInflights exS exConns). name r \<noteq> []"
    by blast+
  ultimately show ?thesis
    using incident nonempty split by (simp add: list_all_iff)
qed

section \<open>The edge port assigner\<close>

text \<open>
  C4. For every endpoint of a bridged connection the port is computed by the first
  rule that matches: the bare node path when the node is hidden; else
  \<open>path#invoke#direction\<close> when the kind is the function kind, whatever the operation;
  else \<open>path#operation#direction\<close> when an operation name is present; else
  \<open>path#direction\<close>. The direction is \<open>source\<close> for the source endpoint and \<open>target\<close>
  for the target endpoint, and the ports of an edge are those of its connection's
  endpoints.
\<close>

theorem getConnectionId_first_match:
  "(isNodeHidden hm p \<longrightarrow> getConnectionId hm p k opn d = p)
   \<and> (\<not> isNodeHidden hm p \<and> k = Some ''@winglang/sdk.cloud.Function''
        \<longrightarrow> getConnectionId hm p k opn d = p @ ''#invoke#'' @ endStr d)
   \<and> (\<not> isNodeHidden hm p \<and> k \<noteq> Some ''@winglang/sdk.cloud.Function''
        \<and> opn = Some opName \<and> opName \<noteq> []
        \<longrightarrow> getConnectionId hm p k opn d = p @ ''#'' @ opName @ ''#'' @ endStr d)
   \<and> (\<not> isNodeHidden hm p \<and> k \<noteq> Some ''@winglang/sdk.cloud.Function''
        \<and> (opn = None \<or> opn = Some [])
        \<longrightarrow> getConnectionId hm p k opn d = p @ ''#'' @ endStr d)
   \<and> endStr SourceEnd = ''source'' \<and> endStr TargetEnd = ''target''
   \<and> sources (edgeOf hm c) =
        [getConnectionId hm (nodeId (source c)) (nodeFqn (source c)) (operation (source c))
           SourceEnd]
   \<and> targets (edgeOf hm c) =
        [getConnectionId hm (nodeId (target c)) (nodeFqn (target c)) (operation (target c))
           TargetEnd]"
  by (auto simp: getConnectionId_def truthyStr_def templateStr_def endStr_def edgeOf_def Let_def
        split: option.splits)

section \<open>Lemmas about the traversals\<close>

lemma setAll_append: "setAll (xs @ ys) m = setAll ys (setAll xs m)"
  by (simp add: setAll_def)

lemma setAll_Nil: "setAll [] m = m"
  by (simp add: setAll_def)

lemma setAll_Cons: "setAll (kv # kvs) m = setAll kvs (m(fst kv \<mapsto> snd kv))"
  by (simp add: setAll_def)

lemma fold_children_setAll:
  assumes "\<And>child m. child \<in> set kids \<Longrightarrow> step child m = setAll (entries child) m"
  shows "fold step kids m = setAll (concat (map entries kids)) m"
  using assms by (induction kids arbitrary: m) (simp_all add: setAll_Nil setAll_append)

lemma setAll_notin: "k \<notin> set (map fst kvs) \<Longrightarrow> setAll kvs m k = m k"
  by (induction kvs arbitrary: m) (auto simp: setAll_Nil setAll_Cons)

lemma setAll_lookup:
  "distinct (map fst kvs) \<Longrightarrow> (k, v) \<in> set kvs \<Longrightarrow> setAll kvs m k = Some v"
proof (induction kvs arbitrary: m)
  case Nil
  then show ?case by simp
next
  case (Cons kv kvs)
  show ?case
  proof (cases "(k, v) = kv")
    case True
    with Cons.prems have "k \<notin> set (map fst kvs)" by force
    with True [symmetric] show ?thesis
      by (simp add: setAll_Cons setAll_notin del: set_map)
  next
    case False
    with Cons.prems have "distinct (map fst kvs)" and "(k, v) \<in> set kvs"
      by auto
    then have "setAll kvs (m(fst kv \<mapsto> snd kv)) k = Some v"
      by (rule Cons.IH)
    then show ?thesis by (simp add: setAll_Cons)
  qed
qed

lemma dom_setAll: "dom (setAll kvs m) = dom m \<union> set (map fst kvs)"
  by (induction kvs arbitrary: m) (auto simp: setAll_Nil setAll_Cons)

lemma traverse_setAll:
  "traverse hm node forceHidden =
     setAll (map (\<lambda>(n, h). (path n, h)) (visited (truthyBool forceHidden) node)) hm"
proof (induction hm node forceHidden rule: traverse.induct)
  case (1 hm node forceHidden)
  let ?h = "truthyBool forceHidden \<or> truthyBool (hidden node)"
  have step: "traverse m child (Some ?h) =
                setAll (map (\<lambda>(n, h). (path n, h)) (visited ?h child)) m"
    if "child \<in> set (Object_values (children node))" for child m
    using "1.IH" [OF _ refl that, of ?h m] by (simp add: truthyBool_def)
  have "fold (\<lambda>child hm2. traverse hm2 child (Some ?h)) (Object_values (children node))
          (hm(path node \<mapsto> ?h))
        = setAll (concat (map (\<lambda>child. map (\<lambda>(n, h). (path n, h)) (visited ?h child))
                     (Object_values (children node)))) (hm(path node \<mapsto> ?h))"
    by (rule fold_children_setAll) (rule step)
  then show ?case
    by (subst traverse.simps, subst visited.simps)
       (simp add: Let_def setAll_Cons map_concat comp_def)
qed

lemma hiddenMap_setAll:
  "hiddenMap rawTree =
     setAll (map (\<lambda>(n, h). (path n, h)) (concat (map (visited False) (traversedRoots rawTree))))
       Map.empty"
proof -
  have "fold (\<lambda>child hm. traverse hm child None) kids m =
          setAll (concat (map (\<lambda>child. map (\<lambda>(n, h). (path n, h)) (visited False child)) kids)) m"
    for kids m
    by (rule fold_children_setAll) (simp add: traverse_setAll truthyBool_def)
  then show ?thesis
    by (simp add: hiddenMap_def traversedRoots_def Let_def map_concat comp_def)
qed

lemma fst_visited: "map fst (visited forced node) = nodesOf node"
proof (induction forced node rule: visited.induct)
  case (1 forced node)
  have eq: "map (\<lambda>child. map fst (visited (forced \<or> truthyBool (hidden node)) child))
          (Object_values (children node))
        = map nodesOf (Object_values (children node))"
    by (rule map_cong [OF refl]) (rule "1.IH")
  show ?case
    by (subst visited.simps, subst nodesOf.simps) (simp add: map_concat comp_def eq)
qed

lemma visited_self: "(node, forced \<or> truthyBool (hidden node)) \<in> set (visited forced node)"
  by (subst visited.simps) simp

lemma visited_child:
  "(n, h) \<in> set (visited forced node) \<Longrightarrow> c \<in> set (Object_values (children n))
     \<Longrightarrow> (c, h \<or> truthyBool (hidden c)) \<in> set (visited forced node)"
proof (induction forced node rule: visited.induct)
  case (1 forced node)
  let ?h = "forced \<or> truthyBool (hidden node)"
  from "1.prems"(1) consider
    (self) "n = node" "h = ?h"
    | (below) child where "child \<in> set (Object_values (children node))"
        "(n, h) \<in> set (visited ?h child)"
    by (subst (asm) visited.simps) auto
  then show ?case
  proof cases
    case self
    with "1.prems"(2) have "(c, h \<or> truthyBool (hidden c)) \<in> set (visited ?h c)"
      and "c \<in> set (Object_values (children node))"
      using visited_self [of c ?h] by simp_all
    then show ?thesis
      by (subst visited.simps) auto
  next
    case below
    then have "(c, h \<or> truthyBool (hidden c)) \<in> set (visited ?h child)"
      using "1.IH" "1.prems"(2) by blast
    with below(1) show ?thesis
      by (subst visited.simps) auto
  qed
qed

lemma nodesOf_self: "node \<in> set (nodesOf node)"
  by (subst nodesOf.simps) simp

lemma nodesOf_child:
  assumes "n \<in> set (nodesOf node)" and c: "c \<in> set (Object_values (children n))"
  shows "c \<in> set (nodesOf node)"
proof -
  from assms(1) obtain h where "(n, h) \<in> set (visited False node)"
    unfolding fst_visited [of False node, symmetric] by auto
  from visited_child [OF this c] show ?thesis
    unfolding fst_visited [of False node, symmetric] by force
qed

lemma processNode_nodeTypes_setAll:
  "processNode_nodeTypes rawConnections m node =
     setAll (map (\<lambda>n. (path n,
                    getNodeType n
                      (case rawConnections of
                         None \<Rightarrow> False
                       | Some rcs \<Rightarrow>
                           list_ex (\<lambda>connection.
                               rawSource connection = path n \<or> rawTarget connection = path n) rcs)))
               (nodesOf node)) m"
proof (induction rawConnections m node rule: processNode_nodeTypes.induct)
  case (1 rawConnections m node)
  show ?case
    by (subst processNode_nodeTypes.simps, subst nodesOf.simps)
       (simp add: fold_children_setAll [OF "1.IH"] setAll_Cons map_concat comp_def)
qed

lemma processNode_nodeFqns_setAll:
  "processNode_nodeFqns m node = setAll (map (\<lambda>n. (path n, fqn n)) (nodesOf node)) m"
proof (induction m node rule: processNode_nodeFqns.induct)
  case (1 m node)
  show ?case
    by (subst processNode_nodeFqns.simps, subst nodesOf.simps)
       (simp add: fold_children_setAll [OF "1.IH"] setAll_Cons map_concat comp_def)
qed

text \<open>The value \<open>processNode\<close> of \<open>nodeInfo\<close> stores for one node.\<close>

lemma processNode_nodeInfo_setAll:
  "processNode_nodeInfo conns m node =
     setAll (map (\<lambda>n. (path n,
                    (case getNodeType n
                            (case conns of
                               None \<Rightarrow> False
                             | Some cs \<Rightarrow>
                                 list_ex (\<lambda>connection.
                                     nodeId (source connection) = path n
                                     \<or> nodeId (target connection) = path n) cs) of
                       TContainer \<Rightarrow> NContainer (map path (Object_values (children n)))
                     | TAutoId \<Rightarrow> NAutoId
                     | TFunction \<Rightarrow> NFunction
                     | _ \<Rightarrow> NConstruct
                            (getNodeInflights n (case conns of None \<Rightarrow> [] | Some cs \<Rightarrow> cs)))))
               (nodesOf node)) m"
proof (induction conns m node rule: processNode_nodeInfo.induct)
  case (1 conns m node)
  have step: "processNode_nodeInfo conns m' child =
     setAll (map (\<lambda>n. (path n,
                    (case getNodeType n
                            (case conns of
                               None \<Rightarrow> False
                             | Some cs \<Rightarrow>
                                 list_ex (\<lambda>connection.
                                     nodeId (source connection) = path n
                                     \<or> nodeId (target connection) = path n) cs) of
                       TContainer \<Rightarrow> NContainer (map path (Object_values (children n)))
                     | TAutoId \<Rightarrow> NAutoId
                     | TFunction \<Rightarrow> NFunction
                     | _ \<Rightarrow> NConstruct
                            (getNodeInflights n (case conns of None \<Rightarrow> [] | Some cs \<Rightarrow> cs)))))
               (nodesOf child)) m'"
    if "child \<in> set (Object_values (children node))" for child m'
    using "1.IH" [OF refl refl refl that] .
  show ?case
    by (subst processNode_nodeInfo.simps, subst nodesOf.simps)
       (simp add: fold_children_setAll [OF step] setAll_Cons map_concat comp_def Let_def
          split: NodeType.splits)
qed

section \<open>The example tree, evaluated\<close>

lemma exTree_roots: "traversedRoots (Some exTree) = [exA, exF, exS, exQ, exP, exE]"
  by (simp add: traversedRoots_def exTree_def getProp_def Object_values_def)

lemma exTree_visibilityNodes:
  "visibilityNodes (Some exTree) =
     [exA, leaf ''root/Default/A/B'' None None, exF, exS,
      exQ, leaf ''root/Default/Q/C'' None None, exP, leaf ''root/Default/P/D'' None None, exE]"
  by (simp add: visibilityNodes_def exTree_roots nodesOf.simps Object_values_def
        exA_def exF_def exS_def exQ_def exP_def exE_def leaf_def)

lemma exTree_nodesOf:
  "nodesOf exTree =
     [exTree,
      ConstructTreeNode ''root/Default'' None None
        [(''A'', exA), (''F'', exF), (''S'', exS), (''Q'', exQ), (''P'', exP), (''E'', exE)],
      exA, leaf ''root/Default/A/B'' None None, exF, exS,
      exQ, leaf ''root/Default/Q/C'' None None, exP, leaf ''root/Default/P/D'' None None, exE]"
  by (simp add: nodesOf.simps Object_values_def exTree_def
        exA_def exF_def exS_def exQ_def exP_def exE_def leaf_def)

lemma exTree_distinct: "distinct (map path (nodesOf exTree))"
  by (simp add: exTree_nodesOf) (simp add: exTree_def exA_def exF_def exS_def exQ_def exP_def exE_def leaf_def)

lemma exTree_hiddenMap:
  "hiddenMap (Some exTree) =
     [''root/Default/A'' \<mapsto> True, ''root/Default/A/B'' \<mapsto> True,
      ''root/Default/F'' \<mapsto> False, ''root/Default/S'' \<mapsto> False,
      ''root/Default/Q'' \<mapsto> False, ''root/Default/Q/C'' \<mapsto> False,
      ''root/Default/P'' \<mapsto> False, ''root/Default/P/D'' \<mapsto> False,
      ''root/Default/E'' \<mapsto> False]"
  by (simp add: hiddenMap_setAll exTree_roots visited.simps Object_values_def setAll_def
        exA_def exF_def exS_def exQ_def exP_def exE_def leaf_def truthyBool_def)
lemma matchNodePath_None: "CHR ''#'' \<notin> set p \<Longrightarrow> matchNodePath acc p = None"
  by (induction p arbitrary: acc) auto

lemma exTree_isNodeHidden:
  "isNodeHidden (hiddenMap (Some exTree)) ''root/Default/A''"
  "isNodeHidden (hiddenMap (Some exTree)) ''root/Default/A/B''"
  "\<not> isNodeHidden (hiddenMap (Some exTree)) ''root/Default''"
  "\<not> isNodeHidden (hiddenMap (Some exTree)) ''root/Default/F''"
  "\<not> isNodeHidden (hiddenMap (Some exTree)) ''root/Default/S''"
  "\<not> isNodeHidden (hiddenMap (Some exTree)) ''root/Default/Q''"
  "\<not> isNodeHidden (hiddenMap (Some exTree)) ''root/Default/P''"
  "\<not> isNodeHidden (hiddenMap (Some exTree)) ''root/Default/E''"
  by (simp_all add: isNodeHidden_def nodePathOf_def matchNodePath_None exTree_hiddenMap)

text \<open>
  A hidden node, a function-kind node with an operation other than \<open>invoke\<close>, a node
  with an operation, and a node without one.
\<close>

theorem getConnectionId_first_match_witness:
  "getConnectionId (hiddenMap (Some exTree)) ''root/Default/A'' None (Some ''get'') SourceEnd
     = ''root/Default/A''
   \<and> getConnectionId (hiddenMap (Some exTree)) ''root/Default/F''
        (Some ''@winglang/sdk.cloud.Function'') (Some ''handle'') TargetEnd
     = ''root/Default/F#invoke#target''
   \<and> getConnectionId (hiddenMap (Some exTree)) ''root/Default/Q'' None (Some ''put'') SourceEnd
     = ''root/Default/Q#put#source''
   \<and> getConnectionId (hiddenMap (Some exTree)) ''root/Default/Q'' None (Some []) TargetEnd
     = ''root/Default/Q#target''"
  using
    getConnectionId_first_match [where hm = "hiddenMap (Some exTree)" and p = "''root/Default/A''"
      and k = None and opn = "Some ''get''" and d = SourceEnd]
    getConnectionId_first_match [where hm = "hiddenMap (Some exTree)" and p = "''root/Default/F''"
      and k = "Some ''@winglang/sdk.cloud.Function''" and opn = "Some ''handle''"
      and d = TargetEnd]
    getConnectionId_first_match [where hm = "hiddenMap (Some exTree)" and p = "''root/Default/Q''"
      and k = None and opn = "Some ''put''" and opName = "''put''" and d = SourceEnd]
    getConnectionId_first_match [where hm = "hiddenMap (Some exTree)" and p = "''root/Default/Q''"
      and k = None and opn = "Some []" and d = TargetEnd]
  by (simp add: exTree_isNodeHidden)

section \<open>The visibility propagator\<close>

text \<open>
  C6. When the paths of the visited nodes are distinct, the hidden map has an entry
  for exactly the visited nodes; a node at which the traversal starts is hidden when it
  is declared hidden; and every other node is hidden when it is declared hidden or its
  parent is hidden. So a child of a hidden node is hidden, whatever its own flag.
\<close>

theorem hiddenMap_inherits:
  assumes "distinct (map path (visibilityNodes rawTree))"
  shows "dom (hiddenMap rawTree) = set (map path (visibilityNodes rawTree))
    \<and> (\<forall>top \<in> set (traversedRoots rawTree).
          hiddenMap rawTree (path top) = Some (truthyBool (hidden top)))
    \<and> (\<forall>n \<in> set (visibilityNodes rawTree). \<forall>c \<in> set (Object_values (children n)).
          \<exists>hp. hiddenMap rawTree (path n) = Some hp
             \<and> hiddenMap rawTree (path c) = Some (truthyBool (hidden c) \<or> hp))
    \<and> (\<forall>n \<in> set (visibilityNodes rawTree). \<forall>c \<in> set (Object_values (children n)).
          hiddenMap rawTree (path n) = Some True \<longrightarrow> hiddenMap rawTree (path c) = Some True)"
proof -
  let ?es = "concat (map (visited False) (traversedRoots rawTree))"
  let ?kvs = "map (\<lambda>(n, h). (path n, h)) ?es"
  have nodes: "map fst ?es = visibilityNodes rawTree"
    by (simp add: visibilityNodes_def map_concat comp_def fst_visited)
  have keys: "map fst ?kvs = map path (visibilityNodes rawTree)"
    unfolding nodes [symmetric] by (simp add: comp_def case_prod_unfold)
  have lookup: "hiddenMap rawTree (path n) = Some h" if "(n, h) \<in> set ?es" for n h
  proof -
    from that have "(path n, h) \<in> set ?kvs" by force
    with assms show ?thesis
      unfolding hiddenMap_setAll keys [symmetric] by (rule setAll_lookup)
  qed
  have child: "(c, h \<or> truthyBool (hidden c)) \<in> set ?es"
    if "(n, h) \<in> set ?es" and "c \<in> set (Object_values (children n))" for n h c
    using that visited_child by fastforce
  have entry: "\<exists>h. (n, h) \<in> set ?es" if "n \<in> set (visibilityNodes rawTree)" for n
  proof -
    from that have "n \<in> set (map fst ?es)"
      by (simp only: nodes)
    then show ?thesis
      by (simp only: set_map) force
  qed
  have inherit: "\<exists>hp. hiddenMap rawTree (path n) = Some hp
             \<and> hiddenMap rawTree (path c) = Some (truthyBool (hidden c) \<or> hp)"
    if "n \<in> set (visibilityNodes rawTree)" and "c \<in> set (Object_values (children n))" for n c
  proof -
    from entry [OF that(1)] obtain h where h: "(n, h) \<in> set ?es" ..
    from lookup [OF h] lookup [OF child [OF h that(2)]] show ?thesis
      by (auto simp: disj_commute)
  qed
  have "dom (hiddenMap rawTree) = set (map path (visibilityNodes rawTree))"
    unfolding hiddenMap_setAll dom_setAll keys by simp
  moreover have "\<forall>top \<in> set (traversedRoots rawTree).
          hiddenMap rawTree (path top) = Some (truthyBool (hidden top))"
  proof
    fix top assume "top \<in> set (traversedRoots rawTree)"
    with visited_self [of top False] have "(top, truthyBool (hidden top)) \<in> set ?es"
      by auto
    then show "hiddenMap rawTree (path top) = Some (truthyBool (hidden top))"
      by (rule lookup)
  qed
  moreover have "\<forall>n \<in> set (visibilityNodes rawTree). \<forall>c \<in> set (Object_values (children n)).
          \<exists>hp. hiddenMap rawTree (path n) = Some hp
             \<and> hiddenMap rawTree (path c) = Some (truthyBool (hidden c) \<or> hp)"
    using inherit by blast
  moreover have "\<forall>n \<in> set (visibilityNodes rawTree). \<forall>c \<in> set (Object_values (children n)).
          hiddenMap rawTree (path n) = Some True \<longrightarrow> hiddenMap rawTree (path c) = Some True"
    using inherit by fastforce
  ultimately show ?thesis by blast
qed

text \<open>
  In the example tree \<open>A\<close> is declared hidden and its child \<open>B\<close> is not: both are hidden.
  \<open>Q\<close> and its child \<open>C\<close> are visible.
\<close>

theorem hiddenMap_inherits_witness:
  "distinct (map path (visibilityNodes (Some exTree)))
   \<and> hidden (leaf ''root/Default/A/B'' None None) = None
   \<and> hiddenMap (Some exTree) ''root/Default/A'' = Some True
   \<and> hiddenMap (Some exTree) ''root/Default/A/B'' = Some True
   \<and> hiddenMap (Some exTree) ''root/Default/Q'' = Some False
   \<and> hiddenMap (Some exTree) ''root/Default/Q/C'' = Some False
   \<and> hiddenMap (Some exTree) ''root'' = None"
proof -
  have d: "distinct (map path (visibilityNodes (Some exTree)))"
    by (simp add: exTree_visibilityNodes)
       (simp add: exA_def exF_def exS_def exQ_def exP_def exE_def leaf_def)
  note inh = hiddenMap_inherits [OF d]
  note keys = inh [THEN conjunct1]
  note tops = inh [THEN conjunct2, THEN conjunct1]
  note kids = inh [THEN conjunct2, THEN conjunct2, THEN conjunct1]
  note mono = inh [THEN conjunct2, THEN conjunct2, THEN conjunct2]
  let ?B = "leaf ''root/Default/A/B'' None None"
  let ?C = "leaf ''root/Default/Q/C'' None None"
  have topA: "exA \<in> set (traversedRoots (Some exTree))"
    and topQ: "exQ \<in> set (traversedRoots (Some exTree))"
    by (simp_all add: exTree_roots)
  have inA: "exA \<in> set (visibilityNodes (Some exTree))"
    and inQ: "exQ \<in> set (visibilityNodes (Some exTree))"
    by (simp_all add: exTree_visibilityNodes)
  have kidA: "?B \<in> set (Object_values (children exA))"
    and kidQ: "?C \<in> set (Object_values (children exQ))"
    by (simp_all add: exA_def exQ_def Object_values_def)
  have paths: "path exA = ''root/Default/A''" "path exQ = ''root/Default/Q''"
    "path ?B = ''root/Default/A/B''" "path ?C = ''root/Default/Q/C''"
    by (simp_all add: exA_def exQ_def leaf_def)
  have flags: "truthyBool (hidden exA)" "\<not> truthyBool (hidden exQ)" "\<not> truthyBool (hidden ?C)"
    by (simp_all add: exA_def exQ_def leaf_def truthyBool_def)
  from bspec [OF tops topA] have a: "hiddenMap (Some exTree) ''root/Default/A'' = Some True"
    by (simp add: paths flags)
  from bspec [OF tops topQ] have q: "hiddenMap (Some exTree) ''root/Default/Q'' = Some False"
    by (simp add: paths flags)
  from bspec [OF bspec [OF mono inA] kidA] a
  have b: "hiddenMap (Some exTree) ''root/Default/A/B'' = Some True"
    by (simp add: paths)
  from bspec [OF bspec [OF kids inQ] kidQ] q
  have c: "hiddenMap (Some exTree) ''root/Default/Q/C'' = Some False"
    by (auto simp: paths flags)
  have "''root'' \<notin> set (map path (visibilityNodes (Some exTree)))"
    by (simp add: exTree_visibilityNodes)
       (simp add: exA_def exF_def exS_def exQ_def exP_def exE_def leaf_def)
  with keys have "''root'' \<notin> dom (hiddenMap (Some exTree))"
    by (simp only: not_False_eq_True)
  then have r: "hiddenMap (Some exTree) ''root'' = None"
    by (simp add: domIff)
  from d a b q c r show ?thesis
    by (simp add: leaf_def)
qed

lemma exTree_fields:
  "path exTree = ''root''" "fqn exTree = None"
  "path exA = ''root/Default/A''" "fqn exA = None"
  "path exF = ''root/Default/F''" "fqn exF = Some ''@winglang/sdk.cloud.Function''"
  "path exS = ''root/Default/S''" "fqn exS = Some ''@winglang/sdk.cloud.Schedule''"
  "path exQ = ''root/Default/Q''" "fqn exQ = None"
  "path exP = ''root/Default/P''" "fqn exP = None"
  "path exE = ''root/Default/E''" "fqn exE = Some ''@winglang/sdk.cloud.Endpoint''"
  "path (leaf p k h) = p" "fqn (leaf p k h) = k" "hidden (leaf p k h) = h"
  "children (leaf p k h) = []"
  by (simp_all add: exTree_def exA_def exF_def exS_def exQ_def exP_def exE_def leaf_def)

lemma exTree_fqns:
  assumes "nodeFqns (Some exTree) = Some fqns"
  shows "mapGet fqns ''root/Default/A/B'' = None"
    and "mapGet fqns ''root/Default/Q'' = None"
    and "mapGet fqns ''root/Default/P'' = None"
    and "mapGet fqns ''root/Default/F'' = Some ''@winglang/sdk.cloud.Function''"
proof -
  from assms have "fqns = setAll (map (\<lambda>n. (path n, fqn n)) (nodesOf exTree)) Map.empty"
    by (simp add: nodeFqns_def processNode_nodeFqns_setAll)
  then have fqns: "fqns = [''root'' \<mapsto> None, ''root/Default'' \<mapsto> None,
      ''root/Default/A'' \<mapsto> None, ''root/Default/A/B'' \<mapsto> None,
      ''root/Default/F'' \<mapsto> Some ''@winglang/sdk.cloud.Function'',
      ''root/Default/S'' \<mapsto> Some ''@winglang/sdk.cloud.Schedule'',
      ''root/Default/Q'' \<mapsto> None, ''root/Default/Q/C'' \<mapsto> None,
      ''root/Default/P'' \<mapsto> None, ''root/Default/P/D'' \<mapsto> None,
      ''root/Default/E'' \<mapsto> Some ''@winglang/sdk.cloud.Endpoint'']"
    by (simp add: exTree_nodesOf setAll_def exTree_fields)
  show "mapGet fqns ''root/Default/A/B'' = None"
    and "mapGet fqns ''root/Default/Q'' = None"
    and "mapGet fqns ''root/Default/P'' = None"
    and "mapGet fqns ''root/Default/F'' = Some ''@winglang/sdk.cloud.Function''"
    by (simp_all add: fqns mapGet_def)
qed

lemma exTree_ascend:
  "ascend (\<lambda>node. isNodeHidden (hiddenMap (Some exTree)) (nodeId node))
     \<lparr> nodeId = ''root/Default/A/B'', nodeFqn = k, operation = opn \<rparr>
     = \<lparr> nodeId = ''root/Default'', nodeFqn = k, operation = opn \<rparr>"
  "ascend (\<lambda>node. isNodeHidden (hiddenMap (Some exTree)) (nodeId node))
     \<lparr> nodeId = ''root/Default/Q'', nodeFqn = k, operation = opn \<rparr>
     = \<lparr> nodeId = ''root/Default/Q'', nodeFqn = k, operation = opn \<rparr>"
  "ascend (\<lambda>node. isNodeHidden (hiddenMap (Some exTree)) (nodeId node))
     \<lparr> nodeId = ''root/Default/F'', nodeFqn = k, operation = opn \<rparr>
     = \<lparr> nodeId = ''root/Default/F'', nodeFqn = k, operation = opn \<rparr>"
  by (simp_all add: ascend.simps exTree_isNodeHidden parentPath_def)

lemma exTree_connections: "connections (Some exTree) (Some exRaws) = Some exBridged"
proof -
  obtain fqns where fqns: "nodeFqns (Some exTree) = Some fqns"
    by (simp add: nodeFqns_def)
  note vals = exTree_fqns [OF fqns]
  show ?thesis
    by (simp add: connections_def fqns vals exRaws_def rawConn_def bridgeConnections_def
          exTree_ascend uniqBy_def templateStr_def exBridged_def)
qed

lemma roleAt_node:
  assumes "distinct (map path (nodesOf tree))" and "node \<in> set (nodesOf tree)"
  shows "roleAt (Some tree) rawConnections (path node) =
           Some (getNodeType node
                   (case rawConnections of
                      None \<Rightarrow> False
                    | Some rcs \<Rightarrow>
                        list_ex (\<lambda>connection.
                            rawSource connection = path node
                            \<or> rawTarget connection = path node) rcs))"
proof -
  let ?kvs = "map (\<lambda>n. (path n,
                    getNodeType n
                      (case rawConnections of
                         None \<Rightarrow> False
                       | Some rcs \<Rightarrow>
                           list_ex (\<lambda>connection.
                               rawSource connection = path n \<or> rawTarget connection = path n) rcs)))
               (nodesOf tree)"
  have "distinct (map fst ?kvs)"
    using assms(1) by (simp add: comp_def)
  moreover have "(path node, getNodeType node
                   (case rawConnections of
                      None \<Rightarrow> False
                    | Some rcs \<Rightarrow>
                        list_ex (\<lambda>connection.
                            rawSource connection = path node
                            \<or> rawTarget connection = path node) rcs)) \<in> set ?kvs"
    using assms(2) by force
  ultimately have "setAll ?kvs Map.empty (path node) = Some (getNodeType node
                   (case rawConnections of
                      None \<Rightarrow> False
                    | Some rcs \<Rightarrow>
                        list_ex (\<lambda>connection.
                            rawSource connection = path node
                            \<or> rawTarget connection = path node) rcs))"
    by (rule setAll_lookup)
  then show ?thesis
    by (simp add: roleAt_def nodeTypes_def processNode_nodeTypes_setAll)
qed

section \<open>The tree classifier\<close>

text \<open>
  C1, as the code has it. For every node of a tree with distinct paths whose path is an
  endpoint of some raw connection exactly when it is an endpoint of some bridged
  connection, the role in the per-path role map follows the decision order: the function
  kind gives \<open>function\<close>, the auto-identifier kind \<open>autoId\<close>, the schedule kind
  \<open>scheduler\<close>, the endpoint kind \<open>endpoint\<close>; otherwise the role is \<open>construct\<close> when
  the kind is the API kind, or the node is the source or the target of some bridged
  connection, or no child of the node has a declared hidden flag other than true;
  otherwise it is \<open>container\<close>.
\<close>

theorem nodeTypes_decision_order:
  assumes "distinct (map path (nodesOf tree))" and "node \<in> set (nodesOf tree)"
    and "connections (Some tree) (Some rcs) = Some conns"
    and "(\<exists>c \<in> set rcs. rawSource c = path node \<or> rawTarget c = path node)
         \<longleftrightarrow> (\<exists>c \<in> set conns. nodeId (source c) = path node \<or> nodeId (target c) = path node)"
  shows "roleAt (Some tree) (Some rcs) (path node) = Some
     (if fqn node = Some ''@winglang/sdk.cloud.Function'' then TFunction
      else if fqn node = Some ''@winglang/sdk.std.AutoIdResource'' then TAutoId
      else if fqn node = Some ''@winglang/sdk.cloud.Schedule'' then TScheduler
      else if fqn node = Some ''@winglang/sdk.cloud.Endpoint'' then TEndpoint
      else if fqn node = Some ''@winglang/sdk.cloud.Api''
              \<or> (\<exists>c \<in> set conns. nodeId (source c) = path node \<or> nodeId (target c) = path node)
              \<or> (\<forall>child \<in> set (Object_values (children node)). hidden child = Some True)
        then TConstruct
      else TContainer)"
proof -
  have incident: "list_ex (\<lambda>connection.
                      rawSource connection = path node \<or> rawTarget connection = path node) rcs
      \<longleftrightarrow> (\<exists>c \<in> set conns. nodeId (source c) = path node \<or> nodeId (target c) = path node)"
    using assms(4) by (simp add: list_ex_iff)
  have kids: "list_ex (\<lambda>child. \<not> truthyBool (hidden child)) (Object_values (children node))
      \<longleftrightarrow> \<not> (\<forall>child \<in> set (Object_values (children node)). hidden child = Some True)"
    by (auto simp: list_ex_iff truthyBool_def split: option.splits)
  show ?thesis
    unfolding roleAt_node [OF assms(1,2)] getNodeType_def Let_def option.case incident kids
    by simp
qed

text \<open>
  In the example tree, \<open>Q\<close> has a visible child and is the source of a raw connection
  and of a bridged connection: it is a \<open>construct\<close>. \<open>A\<close> takes part in no connection
  and its child is not declared hidden: it is a \<open>container\<close>. \<open>S\<close> has the schedule kind.
\<close>

theorem nodeTypes_decision_order_witness:
  "distinct (map path (nodesOf exTree))
   \<and> exQ \<in> set (nodesOf exTree) \<and> exA \<in> set (nodesOf exTree) \<and> exS \<in> set (nodesOf exTree)
   \<and> connections (Some exTree) (Some exRaws) = Some exBridged
   \<and> list_ex (\<lambda>c. rawSource c = path exQ \<or> rawTarget c = path exQ) exRaws
   \<and> list_ex (\<lambda>c. nodeId (source c) = path exQ \<or> nodeId (target c) = path exQ) exBridged
   \<and> \<not> list_ex (\<lambda>c. rawSource c = path exA \<or> rawTarget c = path exA) exRaws
   \<and> \<not> list_ex (\<lambda>c. nodeId (source c) = path exA \<or> nodeId (target c) = path exA) exBridged
   \<and> roleAt (Some exTree) (Some exRaws) ''root/Default/Q'' = Some TConstruct
   \<and> roleAt (Some exTree) (Some exRaws) ''root/Default/A'' = Some TContainer
   \<and> roleAt (Some exTree) (Some exRaws) ''root/Default/S'' = Some TScheduler"
proof -
  have mem: "exQ \<in> set (nodesOf exTree)" "exA \<in> set (nodesOf exTree)"
    "exS \<in> set (nodesOf exTree)"
    by (simp_all add: exTree_nodesOf)
  have rawQ: "\<exists>c \<in> set exRaws. rawSource c = path exQ \<or> rawTarget c = path exQ"
    and brQ: "\<exists>c \<in> set exBridged. nodeId (source c) = path exQ \<or> nodeId (target c) = path exQ"
    and rawA: "\<not> (\<exists>c \<in> set exRaws. rawSource c = path exA \<or> rawTarget c = path exA)"
    and brA: "\<not> (\<exists>c \<in> set exBridged. nodeId (source c) = path exA \<or> nodeId (target c) = path exA)"
    and rawS: "\<not> (\<exists>c \<in> set exRaws. rawSource c = path exS \<or> rawTarget c = path exS)"
    and brS: "\<not> (\<exists>c \<in> set exBridged. nodeId (source c) = path exS \<or> nodeId (target c) = path exS)"
    by (simp_all add: exRaws_def rawConn_def exBridged_def exTree_fields)
  have q: "roleAt (Some exTree) (Some exRaws) ''root/Default/Q'' = Some TConstruct"
    using nodeTypes_decision_order [OF exTree_distinct mem(1) exTree_connections] rawQ brQ
    by (simp add: exTree_fields)
  have a: "roleAt (Some exTree) (Some exRaws) ''root/Default/A'' = Some TContainer"
    using nodeTypes_decision_order [OF exTree_distinct mem(2) exTree_connections] rawA brA
    by (simp add: exTree_fields) (simp add: exA_def Object_values_def leaf_def)
  have s: "roleAt (Some exTree) (Some exRaws) ''root/Default/S'' = Some TScheduler"
    using nodeTypes_decision_order [OF exTree_distinct mem(3) exTree_connections] rawS brS
    by (simp add: exTree_fields)
  from exTree_distinct mem exTree_connections rawQ brQ rawA brA q a s show ?thesis
    by (simp add: list_ex_iff)
qed

text \<open>
  The claim as the spec states it fails on both of its structural signals. \<open>A\<close> is
  hidden, so its only child is effectively hidden and the spec's classifier gives
  \<open>construct\<close>; the role map has \<open>container\<close>. \<open>P\<close> takes part in no bridged connection
  (its only raw connection is an \<open>invokeAsync\<close> one) and has a visible child, so the
  spec's classifier gives \<open>container\<close>; the role map has \<open>construct\<close>.
\<close>

theorem nodeTypes_spec_counterexample:
  "connections (Some exTree) (Some exRaws) = Some exBridged
   \<and> roleAt (Some exTree) (Some exRaws) (path exA) = Some TContainer
   \<and> classify_spec (hiddenMap (Some exTree)) exBridged exA = TConstruct
   \<and> roleAt (Some exTree) (Some exRaws) (path exP) = Some TConstruct
   \<and> classify_spec (hiddenMap (Some exTree)) exBridged exP = TContainer"
proof -
  have mem: "exP \<in> set (nodesOf exTree)" "exA \<in> set (nodesOf exTree)"
    by (simp_all add: exTree_nodesOf)
  have "roleAt (Some exTree) (Some exRaws) (path exA) = Some TContainer"
    unfolding roleAt_node [OF exTree_distinct mem(2)]
    by (simp add: getNodeType_def exTree_fields exRaws_def rawConn_def)
       (simp add: exA_def Object_values_def leaf_def truthyBool_def)
  moreover have "roleAt (Some exTree) (Some exRaws) (path exP) = Some TConstruct"
    unfolding roleAt_node [OF exTree_distinct mem(1)]
    by (simp add: getNodeType_def exTree_fields exRaws_def rawConn_def)
  moreover have "classify_spec (hiddenMap (Some exTree)) exBridged exA = TConstruct"
    by (simp add: classify_spec_def exTree_fields exBridged_def)
       (simp add: exA_def Object_values_def leaf_def exTree_isNodeHidden)
  moreover have "classify_spec (hiddenMap (Some exTree)) exBridged exP = TContainer"
    by (simp add: classify_spec_def exTree_fields exBridged_def)
       (simp add: exP_def Object_values_def leaf_def isNodeHidden_def nodePathOf_def
          matchNodePath_None exTree_hiddenMap)
  ultimately show ?thesis
    by (simp add: exTree_connections)
qed

lemma connections_Some:
  "\<exists>conns. connections (Some tree) (Some rcs) = Some conns"
  by (simp add: connections_def nodeFqns_def)

lemma descriptorAt_node:
  assumes "distinct (map path (nodesOf tree))" and "node \<in> set (nodesOf tree)"
    and "connections (Some tree) (Some rcs) = Some conns"
  shows "descriptorAt (Some tree) (Some rcs) (path node) =
     Some (case getNodeType node
                  (list_ex (\<lambda>connection.
                      nodeId (source connection) = path node
                      \<or> nodeId (target connection) = path node) conns) of
             TContainer \<Rightarrow> NContainer (map path (Object_values (children node)))
           | TAutoId \<Rightarrow> NAutoId
           | TFunction \<Rightarrow> NFunction
           | _ \<Rightarrow> NConstruct (getNodeInflights node conns))"
proof -
  let ?v = "\<lambda>n. (case getNodeType n
                  (list_ex (\<lambda>connection.
                      nodeId (source connection) = path n
                      \<or> nodeId (target connection) = path n) conns) of
             TContainer \<Rightarrow> NContainer (map path (Object_values (children n)))
           | TAutoId \<Rightarrow> NAutoId
           | TFunction \<Rightarrow> NFunction
           | _ \<Rightarrow> NConstruct (getNodeInflights n conns))"
  let ?kvs = "map (\<lambda>n. (path n, ?v n)) (nodesOf tree)"
  have "distinct (map fst ?kvs)"
    using assms(1) by (simp add: comp_def)
  moreover have "(path node, ?v node) \<in> set ?kvs"
    using assms(2) by force
  ultimately have "setAll ?kvs Map.empty (path node) = Some (?v node)"
    by (rule setAll_lookup)
  then show ?thesis
    unfolding descriptorAt_def nodeInfo_def assms(3) processNode_nodeInfo_setAll option.case
    by simp
qed

section \<open>The node descriptors\<close>

text \<open>
  C5, as the code has it. For every node of a tree with distinct paths, the descriptor
  in the per-path descriptor map is determined by the node's role, classified with the
  incidence of the bridged connections: a \<open>container\<close> node gets a container descriptor
  with the ordered list of its children's paths, an \<open>autoId\<close> node the \<open>autoId\<close>
  descriptor, a \<open>function\<close> node the \<open>function\<close> descriptor, and a \<open>scheduler\<close>, an
  \<open>endpoint\<close> and a \<open>construct\<close> node each get a \<open>construct\<close> descriptor with the node's
  inflight records.
\<close>

theorem nodeInfo_descriptor:
  assumes "distinct (map path (nodesOf tree))" and "node \<in> set (nodesOf tree)"
  shows "\<exists>conns. connections (Some tree) (Some rcs) = Some conns
     \<and> descriptorAt (Some tree) (Some rcs) (path node) = Some
          (case getNodeType node
                  (\<exists>c \<in> set conns. nodeId (source c) = path node \<or> nodeId (target c) = path node) of
             TContainer \<Rightarrow> NContainer (map path (Object_values (children node)))
           | TAutoId \<Rightarrow> NAutoId
           | TFunction \<Rightarrow> NFunction
           | TScheduler \<Rightarrow> NConstruct (getNodeInflights node conns)
           | TEndpoint \<Rightarrow> NConstruct (getNodeInflights node conns)
           | TConstruct \<Rightarrow> NConstruct (getNodeInflights node conns))"
proof -
  obtain conns where conns: "connections (Some tree) (Some rcs) = Some conns"
    using connections_Some by blast
  have "descriptorAt (Some tree) (Some rcs) (path node) = Some
          (case getNodeType node
                  (\<exists>c \<in> set conns. nodeId (source c) = path node \<or> nodeId (target c) = path node) of
             TContainer \<Rightarrow> NContainer (map path (Object_values (children node)))
           | TAutoId \<Rightarrow> NAutoId
           | TFunction \<Rightarrow> NFunction
           | TScheduler \<Rightarrow> NConstruct (getNodeInflights node conns)
           | TEndpoint \<Rightarrow> NConstruct (getNodeInflights node conns)
           | TConstruct \<Rightarrow> NConstruct (getNodeInflights node conns))"
    unfolding descriptorAt_node [OF assms conns] list_ex_iff
    by (simp split: NodeType.splits)
  with conns show ?thesis
    by blast
qed

text \<open>
  In the example tree the schedule node \<open>S\<close> and the endpoint node \<open>E\<close> get a
  \<open>construct\<close> descriptor, the function node \<open>F\<close> a \<open>function\<close> descriptor.
\<close>

theorem nodeInfo_descriptor_witness:
  "distinct (map path (nodesOf exTree))
   \<and> exS \<in> set (nodesOf exTree) \<and> exE \<in> set (nodesOf exTree) \<and> exF \<in> set (nodesOf exTree)
   \<and> descriptorAt (Some exTree) (Some exRaws) ''root/Default/S'' = Some (NConstruct [])
   \<and> descriptorAt (Some exTree) (Some exRaws) ''root/Default/E'' = Some (NConstruct [])
   \<and> descriptorAt (Some exTree) (Some exRaws) ''root/Default/F'' = Some NFunction"
proof -
  have mem: "exS \<in> set (nodesOf exTree)" "exE \<in> set (nodesOf exTree)"
    "exF \<in> set (nodesOf exTree)"
    by (simp_all add: exTree_nodesOf)
  have inflights: "getNodeInflights exS exBridged = []" "getNodeInflights exE exBridged = []"
    by (simp_all add: getNodeInflights_alt operationNames_def exBridged_def exTree_fields)
  have s: "descriptorAt (Some exTree) (Some exRaws) ''root/Default/S'' = Some (NConstruct [])"
    using nodeInfo_descriptor [OF exTree_distinct mem(1), of exRaws]
    by (simp add: exTree_connections getNodeType_def exTree_fields inflights)
  have e: "descriptorAt (Some exTree) (Some exRaws) ''root/Default/E'' = Some (NConstruct [])"
    using nodeInfo_descriptor [OF exTree_distinct mem(2), of exRaws]
    by (simp add: exTree_connections getNodeType_def exTree_fields inflights)
  have f: "descriptorAt (Some exTree) (Some exRaws) ''root/Default/F'' = Some NFunction"
    using nodeInfo_descriptor [OF exTree_distinct mem(3), of exRaws]
    by (simp add: exTree_connections getNodeType_def exTree_fields)
  from exTree_distinct mem s e f show ?thesis
    by simp
qed

text \<open>
  The claim as the spec states it fails for the schedule node and for the endpoint node
  of the example tree: their roles are \<open>scheduler\<close> and \<open>endpoint\<close>, the spec's
  descriptors are \<open>scheduler\<close> and \<open>endpoint\<close>, and the descriptor map has \<open>construct\<close>
  descriptors.
\<close>

theorem nodeInfo_spec_counterexample:
  "connections (Some exTree) (Some exRaws) = Some exBridged
   \<and> getNodeType exS
        (list_ex (\<lambda>c. nodeId (source c) = path exS \<or> nodeId (target c) = path exS) exBridged)
       = TScheduler
   \<and> descriptor_spec TScheduler exS exBridged = NScheduler
   \<and> descriptorAt (Some exTree) (Some exRaws) (path exS) = Some (NConstruct [])
   \<and> getNodeType exE
        (list_ex (\<lambda>c. nodeId (source c) = path exE \<or> nodeId (target c) = path exE) exBridged)
       = TEndpoint
   \<and> descriptor_spec TEndpoint exE exBridged = NEndpoint
   \<and> descriptorAt (Some exTree) (Some exRaws) (path exE) = Some (NConstruct [])"
proof -
  have mem: "exS \<in> set (nodesOf exTree)" "exE \<in> set (nodesOf exTree)"
    by (simp_all add: exTree_nodesOf)
  have inflights: "getNodeInflights exS exBridged = []" "getNodeInflights exE exBridged = []"
    by (simp_all add: getNodeInflights_alt operationNames_def exBridged_def exTree_fields)
  have roles: "getNodeType exS b = TScheduler" "getNodeType exE b = TEndpoint" for b
    by (simp_all add: getNodeType_def exTree_fields)
  have "descriptorAt (Some exTree) (Some exRaws) (path exS) = Some (NConstruct [])"
    unfolding descriptorAt_node [OF exTree_distinct mem(1) exTree_connections]
    by (simp add: roles inflights)
  moreover have "descriptorAt (Some exTree) (Some exRaws) (path exE) = Some (NConstruct [])"
    unfolding descriptorAt_node [OF exTree_distinct mem(2) exTree_connections]
    by (simp add: roles inflights)
  ultimately show ?thesis
    by (simp add: exTree_connections roles descriptor_spec_def)
qed

section \<open>The final edges\<close>

text \<open>
  C3, as the code has it. Every final edge has one source port and one target port and
  the id \<open>sourcePort##targetPort\<close>. The final edge list has exactly one edge for every
  bridged connection, in the order of the bridged connections: there is no second
  deduplication, and two bridged connections whose endpoints yield the same ports give
  two edges with the same id.
\<close>

theorem edges_one_per_connection:
  "(\<forall>e \<in> set (edges rawTree rawConnections).
       \<exists>s t. sources e = [s] \<and> targets e = [t] \<and> edgeId e = s @ ''##'' @ t)
   \<and> (connections rawTree rawConnections = Some conns \<longrightarrow>
        length (edges rawTree rawConnections) = length conns
        \<and> (\<forall>i < length conns.
              edges rawTree rawConnections ! i = edgeOf (hiddenMap rawTree) (conns ! i)))
   \<and> (connections rawTree rawConnections = None \<longrightarrow> edges rawTree rawConnections = [])"
  by (auto simp: edges_def edgeOf_def Let_def split: option.splits)

text \<open>
  The example has three bridged connections and three edges. The connections from \<open>Q\<close>
  to the function \<open>F\<close> with the target operations \<open>handle\<close> and \<open>invoke\<close> give two
  edges with the same id.
\<close>

theorem edges_one_per_connection_witness:
  "connections (Some exTree) (Some exRaws) = Some exBridged
   \<and> length (edges (Some exTree) (Some exRaws)) = 3
   \<and> edges (Some exTree) (Some exRaws) ! 1 =
       \<lparr> edgeId = ''root/Default/Q#source##root/Default/F#invoke#target'',
         sources = [''root/Default/Q#source''],
         targets = [''root/Default/F#invoke#target''] \<rparr>
   \<and> edges (Some exTree) (Some exRaws) ! 2 =
       \<lparr> edgeId = ''root/Default/Q#source##root/Default/F#invoke#target'',
         sources = [''root/Default/Q#source''],
         targets = [''root/Default/F#invoke#target''] \<rparr>"
proof -
  note e = edges_one_per_connection [of "Some exTree" "Some exRaws" exBridged]
  have len: "length exBridged = 3"
    by (simp add: exBridged_def)
  have e1: "edgeOf (hiddenMap (Some exTree)) (exBridged ! 1) =
       \<lparr> edgeId = ''root/Default/Q#source##root/Default/F#invoke#target'',
         sources = [''root/Default/Q#source''],
         targets = [''root/Default/F#invoke#target''] \<rparr>"
    by (simp add: exBridged_def edgeOf_def Let_def getConnectionId_def exTree_isNodeHidden
          truthyStr_def endStr_def)
  have e2: "edgeOf (hiddenMap (Some exTree)) (exBridged ! 2) =
       \<lparr> edgeId = ''root/Default/Q#source##root/Default/F#invoke#target'',
         sources = [''root/Default/Q#source''],
         targets = [''root/Default/F#invoke#target''] \<rparr>"
    by (simp add: exBridged_def edgeOf_def Let_def getConnectionId_def exTree_isNodeHidden
          truthyStr_def endStr_def)
  from e exTree_connections len
  have "length (edges (Some exTree) (Some exRaws)) = 3"
    and "edges (Some exTree) (Some exRaws) ! 1 = edgeOf (hiddenMap (Some exTree)) (exBridged ! 1)"
    and "edges (Some exTree) (Some exRaws) ! 2 = edgeOf (hiddenMap (Some exTree)) (exBridged ! 2)"
    by simp_all
  with e1 e2 exTree_connections show ?thesis
    by simp
qed

text \<open>
  The claim as the spec states it fails: the final edge list of the example has two
  entries with the same edge id.
\<close>

theorem edges_distinct_counterexample:
  "connections (Some exTree) (Some exRaws) = Some exBridged
   \<and> distinct exBridged
   \<and> \<not> distinct (map edgeId (edges (Some exTree) (Some exRaws)))"
  by (simp add: edges_def exTree_connections)
     (simp add: exBridged_def edgeOf_def Let_def getConnectionId_def exTree_isNodeHidden
        truthyStr_def endStr_def templateStr_def)

section \<open>The deferred-invocation filter\<close>

text \<open>
  C7. A raw connection whose source operation or target operation is \<open>invokeAsync\<close> is
  removed before bridging: with or without such a connection in the raw list, the bridged
  connections, the final edges and the node descriptors (with their inflight records) are
  the same. So they are those of the raw list without all such connections.
\<close>

theorem invokeAsync_excluded:
  "(sourceOp c = Some ''invokeAsync'' \<or> targetOp c = Some ''invokeAsync'' \<longrightarrow>
      connections rawTree (Some (xs @ c # ys)) = connections rawTree (Some (xs @ ys))
      \<and> edges rawTree (Some (xs @ c # ys)) = edges rawTree (Some (xs @ ys))
      \<and> nodeInfo rawTree (Some (xs @ c # ys)) = nodeInfo rawTree (Some (xs @ ys)))
   \<and> connections rawTree (Some rcs) =
       connections rawTree
         (Some (filter (\<lambda>c. sourceOp c \<noteq> Some ''invokeAsync''
                          \<and> targetOp c \<noteq> Some ''invokeAsync'') rcs))
   \<and> edges rawTree (Some rcs) =
       edges rawTree
         (Some (filter (\<lambda>c. sourceOp c \<noteq> Some ''invokeAsync''
                          \<and> targetOp c \<noteq> Some ''invokeAsync'') rcs))
   \<and> nodeInfo rawTree (Some rcs) =
       nodeInfo rawTree
         (Some (filter (\<lambda>c. sourceOp c \<noteq> Some ''invokeAsync''
                          \<and> targetOp c \<noteq> Some ''invokeAsync'') rcs))"
proof -
  have drop: "connections rawTree (Some (xs @ c # ys)) = connections rawTree (Some (xs @ ys))"
    if "sourceOp c = Some ''invokeAsync'' \<or> targetOp c = Some ''invokeAsync''"
    using that by (auto simp: connections_def split: option.splits)
  have filt: "connections rawTree (Some rcs) =
       connections rawTree
         (Some (filter (\<lambda>c. sourceOp c \<noteq> Some ''invokeAsync''
                          \<and> targetOp c \<noteq> Some ''invokeAsync'') rcs))"
    by (simp add: connections_def split: option.splits)
  show ?thesis
    using drop filt by (auto simp: edges_def nodeInfo_def split: option.splits)
qed

text \<open>
  The last raw connection of the example has the target operation \<open>invokeAsync\<close>: the
  outputs are those of the first three raw connections.
\<close>

theorem invokeAsync_excluded_witness:
  "targetOp (exRaws ! 3) = Some ''invokeAsync''
   \<and> connections (Some exTree) (Some exRaws) = connections (Some exTree) (Some (take 3 exRaws))
   \<and> edges (Some exTree) (Some exRaws) = edges (Some exTree) (Some (take 3 exRaws))
   \<and> nodeInfo (Some exTree) (Some exRaws) = nodeInfo (Some exTree) (Some (take 3 exRaws))
   \<and> connections (Some exTree) (Some exRaws) = Some exBridged"
proof -
  have split: "exRaws = take 3 exRaws @ (exRaws ! 3) # []"
    by (simp add: exRaws_def)
  have async: "targetOp (exRaws ! 3) = Some ''invokeAsync''"
    by (simp add: exRaws_def rawConn_def)
  from invokeAsync_excluded [of "exRaws ! 3" "Some exTree" "take 3 exRaws" "[]"] async
  have "connections (Some exTree) (Some (take 3 exRaws @ (exRaws ! 3) # []))
          = connections (Some exTree) (Some (take 3 exRaws @ []))"
    and "edges (Some exTree) (Some (take 3 exRaws @ (exRaws ! 3) # []))
          = edges (Some exTree) (Some (take 3 exRaws @ []))"
    and "nodeInfo (Some exTree) (Some (take 3 exRaws @ (exRaws ! 3) # []))
          = nodeInfo (Some exTree) (Some (take 3 exRaws @ []))"
    by blast+
  then show ?thesis
    using async exTree_connections split by simp
qed

section \<open>\<open>isNodeHidden\<close>\<close>

lemma matchNodePath_Some:
  "matchNodePath acc p = Some g \<Longrightarrow>
     \<exists>xs rest. g = acc @ xs \<and> p = xs @ CHR ''#'' # rest \<and> g \<noteq> []
       \<and> CHR ''#'' \<notin> set (tl xs) \<and> (acc \<noteq> [] \<longrightarrow> CHR ''#'' \<notin> set xs)
       \<and> (\<forall>c \<in> set xs. \<not> isLineTerminator c)"
proof (induction p arbitrary: acc)
  case Nil
  then show ?case by simp
next
  case (Cons c cs)
  show ?case
  proof (cases "acc \<noteq> [] \<and> c = CHR ''#''")
    case True
    with Cons.prems have "g = acc" by simp
    with True show ?thesis by auto
  next
    case False
    with Cons.prems have nl: "\<not> isLineTerminator c"
      and rec: "matchNodePath (acc @ [c]) cs = Some g"
      by (auto split: if_splits)
    from Cons.IH [OF rec] obtain xs rest where
      g: "g = (acc @ [c]) @ xs" and cs: "cs = xs @ CHR ''#'' # rest" and "g \<noteq> []"
      and hash: "CHR ''#'' \<notin> set xs" and lt: "\<forall>c \<in> set xs. \<not> isLineTerminator c"
      by auto
    have "g = acc @ (c # xs)" "c # cs = (c # xs) @ CHR ''#'' # rest"
      using g cs by simp_all
    moreover have "CHR ''#'' \<notin> set (tl (c # xs))"
      using hash by simp
    moreover have "acc \<noteq> [] \<longrightarrow> CHR ''#'' \<notin> set (c # xs)"
      using hash False by auto
    moreover have "\<forall>d \<in> set (c # xs). \<not> isLineTerminator d"
      using nl lt by simp
    ultimately show ?thesis
      using \<open>g \<noteq> []\<close> by blast
  qed
qed

lemma matchNodePath_suffix:
  assumes "CHR ''#'' \<notin> set xs" and "\<forall>c \<in> set xs. \<not> isLineTerminator c" and "acc @ xs \<noteq> []"
  shows "matchNodePath acc (xs @ CHR ''#'' # rest) = Some (acc @ xs)"
  using assms by (induction xs arbitrary: acc) auto

section \<open>The visibility predicate\<close>

text \<open>
  C9, as the code has it. \<open>isNodeHidden\<close> is a total function. For every input string it
  looks up the node path: the prefix before the first \<open>#\<close> that stands after at least one
  character, when no line terminator stands before that \<open>#\<close>, and the whole string
  otherwise (in particular when the string has no \<open>#\<close>). It returns true exactly when the
  hidden map has \<open>true\<close> for the node path, so it returns false when the node path is absent.
  A query \<open>path#operation\<close> whose path is non-empty and has no \<open>#\<close> and no line
  terminator returns the hidden status of the bare path.
\<close>

theorem isNodeHidden_lookup:
  "(isNodeHidden hm p \<longleftrightarrow> hm (nodePathOf p) = Some True)
   \<and> (hm (nodePathOf p) = None \<longrightarrow> \<not> isNodeHidden hm p)
   \<and> (CHR ''#'' \<notin> set p \<longrightarrow> nodePathOf p = p)
   \<and> (nodePathOf p \<noteq> p \<longrightarrow>
        nodePathOf p \<noteq> []
        \<and> (\<exists>rest. p = nodePathOf p @ CHR ''#'' # rest)
        \<and> CHR ''#'' \<notin> set (tl (nodePathOf p))
        \<and> (\<forall>c \<in> set (nodePathOf p). \<not> isLineTerminator c))
   \<and> (bare \<noteq> [] \<and> CHR ''#'' \<notin> set (tl bare) \<and> (\<forall>c \<in> set bare. \<not> isLineTerminator c) \<longrightarrow>
        nodePathOf (bare @ CHR ''#'' # opn) = bare)
   \<and> (bare \<noteq> [] \<and> CHR ''#'' \<notin> set bare \<and> (\<forall>c \<in> set bare. \<not> isLineTerminator c) \<longrightarrow>
        isNodeHidden hm (bare @ CHR ''#'' # opn) = isNodeHidden hm bare)"
proof -
  have c1: "isNodeHidden hm p \<longleftrightarrow> hm (nodePathOf p) = Some True"
    by (simp add: isNodeHidden_def)
  have c2: "hm (nodePathOf p) = None \<longrightarrow> \<not> isNodeHidden hm p"
    by (simp add: isNodeHidden_def)
  have c3: "CHR ''#'' \<notin> set p \<longrightarrow> nodePathOf p = p"
    by (simp add: nodePathOf_def matchNodePath_None)
  have c4: "nodePathOf p \<noteq> p \<longrightarrow>
        nodePathOf p \<noteq> []
        \<and> (\<exists>rest. p = nodePathOf p @ CHR ''#'' # rest)
        \<and> CHR ''#'' \<notin> set (tl (nodePathOf p))
        \<and> (\<forall>c \<in> set (nodePathOf p). \<not> isLineTerminator c)"
  proof
    assume "nodePathOf p \<noteq> p"
    then obtain g where g: "matchNodePath [] p = Some g" and eq: "nodePathOf p = g"
      by (auto simp: nodePathOf_def split: option.splits)
    from matchNodePath_Some [OF g] show "nodePathOf p \<noteq> []
        \<and> (\<exists>rest. p = nodePathOf p @ CHR ''#'' # rest)
        \<and> CHR ''#'' \<notin> set (tl (nodePathOf p))
        \<and> (\<forall>c \<in> set (nodePathOf p). \<not> isLineTerminator c)"
      unfolding eq by auto
  qed
  have first: "nodePathOf (bare @ CHR ''#'' # opn) = bare"
    if "bare \<noteq> [] \<and> CHR ''#'' \<notin> set (tl bare) \<and> (\<forall>c \<in> set bare. \<not> isLineTerminator c)"
  proof -
    from that obtain b bs where bare: "bare = b # bs"
      by (cases bare) auto
    with that have "\<not> isLineTerminator b" "CHR ''#'' \<notin> set bs"
      "\<forall>c \<in> set bs. \<not> isLineTerminator c"
      by auto
    then have "matchNodePath [b] (bs @ CHR ''#'' # opn) = Some ([b] @ bs)"
      by (intro matchNodePath_suffix) auto
    with \<open>\<not> isLineTerminator b\<close> show ?thesis
      by (simp add: nodePathOf_def bare)
  qed
  then have c5: "bare \<noteq> [] \<and> CHR ''#'' \<notin> set (tl bare) \<and> (\<forall>c \<in> set bare. \<not> isLineTerminator c)
      \<longrightarrow> nodePathOf (bare @ CHR ''#'' # opn) = bare" ..
  have c6: "bare \<noteq> [] \<and> CHR ''#'' \<notin> set bare \<and> (\<forall>c \<in> set bare. \<not> isLineTerminator c) \<longrightarrow>
        isNodeHidden hm (bare @ CHR ''#'' # opn) = isNodeHidden hm bare"
  proof
    assume a: "bare \<noteq> [] \<and> CHR ''#'' \<notin> set bare \<and> (\<forall>c \<in> set bare. \<not> isLineTerminator c)"
    then have "CHR ''#'' \<notin> set (tl bare)"
      by (cases bare) auto
    with a first have "nodePathOf (bare @ CHR ''#'' # opn) = bare"
      by blast
    moreover from a have "nodePathOf bare = bare"
      by (simp add: nodePathOf_def matchNodePath_None)
    ultimately show "isNodeHidden hm (bare @ CHR ''#'' # opn) = isNodeHidden hm bare"
      by (simp add: isNodeHidden_def)
  qed
  show ?thesis
    by (intro conjI) (rule c1, rule c2, rule c3, rule c4, rule c5, rule c6)
qed

text \<open>
  In the example tree the query \<open>root/Default/A#get\<close> returns the status of the hidden
  node \<open>A\<close>, the query \<open>root/Default/Q#put\<close> that of the visible node \<open>Q\<close>, and an unknown
  path is not hidden.
\<close>

theorem isNodeHidden_lookup_witness:
  "isNodeHidden (hiddenMap (Some exTree)) ''root/Default/A#get''
   \<and> \<not> isNodeHidden (hiddenMap (Some exTree)) ''root/Default/Q#put''
   \<and> hiddenMap (Some exTree) (nodePathOf ''root/Default/X'') = None
   \<and> \<not> isNodeHidden (hiddenMap (Some exTree)) ''root/Default/X''"
proof -
  have lt: "\<forall>c \<in> set ''root/Default/A''. \<not> isLineTerminator c"
    "\<forall>c \<in> set ''root/Default/Q''. \<not> isLineTerminator c"
    by (simp_all add: isLineTerminator_def)
  have absent: "hiddenMap (Some exTree) (nodePathOf ''root/Default/X'') = None"
    by (simp add: nodePathOf_def exTree_hiddenMap)
  from isNodeHidden_lookup [of "hiddenMap (Some exTree)" _ "''root/Default/A''" "''get''"] lt
  have "isNodeHidden (hiddenMap (Some exTree)) (''root/Default/A'' @ CHR ''#'' # ''get'')
          = isNodeHidden (hiddenMap (Some exTree)) ''root/Default/A''"
    by simp
  moreover
  from isNodeHidden_lookup [of "hiddenMap (Some exTree)" _ "''root/Default/Q''" "''put''"] lt
  have "isNodeHidden (hiddenMap (Some exTree)) (''root/Default/Q'' @ CHR ''#'' # ''put'')
          = isNodeHidden (hiddenMap (Some exTree)) ''root/Default/Q''"
    by simp
  moreover
  from isNodeHidden_lookup [of "hiddenMap (Some exTree)" "''root/Default/X''"] absent
  have "\<not> isNodeHidden (hiddenMap (Some exTree)) ''root/Default/X''"
    by blast
  ultimately show ?thesis
    using absent exTree_isNodeHidden by simp
qed

text \<open>
  The claim as the spec states it fails for a path that starts with \<open>#\<close>: stripping
  everything from the first \<open>#\<close> of \<open>#a\<close> leaves the empty path, which is absent from
  the hidden map of the tree, and \<open>isNodeHidden\<close> returns true, since the regular
  expression needs a character before the \<open>#\<close> and the whole string is looked up.
\<close>

theorem isNodeHidden_strip_counterexample:
  "stripOperation_spec ''#a'' = []
   \<and> hiddenMap (Some exHashTree) (stripOperation_spec ''#a'') = None
   \<and> isNodeHidden (hiddenMap (Some exHashTree)) ''#a''"
proof -
  have roots: "traversedRoots (Some exHashTree) = [leaf ''#a'' None (Some True)]"
    by (simp add: traversedRoots_def exHashTree_def getProp_def Object_values_def)
  have hm: "hiddenMap (Some exHashTree) = [''#a'' \<mapsto> True]"
    by (simp add: hiddenMap_setAll roots visited.simps Object_values_def setAll_def
          leaf_def truthyBool_def)
  show ?thesis
    by (simp add: stripOperation_spec_def hm isNodeHidden_def nodePathOf_def
          isLineTerminator_def)
qed

section \<open>Lemmas about the ascent\<close>

lemma parentPath_Some:
  assumes "parentPath p = Some q"
  shows "\<exists>seg. p = q @ CHR ''/'' # seg \<and> CHR ''/'' \<notin> set seg"
proof -
  let ?P = "\<lambda>c. c \<noteq> CHR ''/''"
  from assms have slash: "CHR ''/'' \<in> set (rev p)"
    and q: "q = rev (tl (dropWhile ?P (rev p)))"
    by (auto simp: parentPath_def split: if_splits)
  from slash have ne: "dropWhile ?P (rev p) \<noteq> []"
    by simp
  then have hd: "hd (dropWhile ?P (rev p)) = CHR ''/''"
    using hd_dropWhile [of ?P "rev p"] by simp
  from ne hd have dw: "dropWhile ?P (rev p) = CHR ''/'' # tl (dropWhile ?P (rev p))"
    by (cases "dropWhile ?P (rev p)") simp_all
  have "rev p = takeWhile ?P (rev p) @ dropWhile ?P (rev p)"
    by simp
  then have "rev p = takeWhile ?P (rev p) @ CHR ''/'' # tl (dropWhile ?P (rev p))"
    using dw by simp
  then have "rev (rev p) = rev (takeWhile ?P (rev p) @ CHR ''/'' # tl (dropWhile ?P (rev p)))"
    by (rule arg_cong)
  then have "p = q @ CHR ''/'' # rev (takeWhile ?P (rev p))"
    by (simp add: q)
  moreover have "CHR ''/'' \<notin> set (rev (takeWhile ?P (rev p)))"
    using set_takeWhileD [of "CHR ''/''" ?P "rev p"] by auto
  ultimately show ?thesis
    by blast
qed

lemma isAncestorOrSelf_length: "isAncestorOrSelf a p \<Longrightarrow> length a \<le> length p"
proof -
  assume "isAncestorOrSelf a p"
  then consider "a = p" | "take (Suc (length a)) p = a @ ''/''"
    by (auto simp: isAncestorOrSelf_def)
  then show ?thesis
  proof cases
    case 1
    then show ?thesis by simp
  next
    case 2
    then have "length (take (Suc (length a)) p) = Suc (length a)"
      by simp
    then show ?thesis
      by (simp add: min_def split: if_splits)
  qed
qed

lemma isAncestorOrSelf_parent:
  assumes "parentPath p = Some q" and "isAncestorOrSelf a q"
  shows "isAncestorOrSelf a p"
proof -
  from parentPath_Some [OF assms(1)] obtain seg where p: "p = q @ CHR ''/'' # seg"
    by blast
  from assms(2) consider "a = q" | "take (Suc (length a)) q = a @ ''/''"
    by (auto simp: isAncestorOrSelf_def)
  then show ?thesis
  proof cases
    case 1
    then show ?thesis by (simp add: isAncestorOrSelf_def p)
  next
    case 2
    then have "length (take (Suc (length a)) q) = Suc (length a)"
      by simp
    then have "Suc (length a) \<le> length q"
      by (simp add: min_def split: if_splits)
    with 2 show ?thesis
      by (simp add: isAncestorOrSelf_def p)
  qed
qed

lemma isAncestorOrSelf_of_parent:
  assumes "parentPath p = Some q" and "isAncestorOrSelf a p" and "a \<noteq> p"
  shows "isAncestorOrSelf a q"
proof -
  from parentPath_Some [OF assms(1)] obtain seg where p: "p = q @ CHR ''/'' # seg"
    and seg: "CHR ''/'' \<notin> set seg"
    by blast
  from assms(2,3) have tk: "take (Suc (length a)) p = a @ ''/''"
    by (auto simp: isAncestorOrSelf_def)
  then have "length (take (Suc (length a)) p) = Suc (length a)"
    by simp
  then have len: "Suc (length a) \<le> length p"
    by (simp add: min_def split: if_splits)
  from tk have "take (Suc (length a)) p ! length a = (a @ ''/'') ! length a"
    by simp
  then have at: "p ! length a = CHR ''/''"
    by simp
  have le: "length a \<le> length q"
  proof (rule ccontr)
    assume "\<not> length a \<le> length q"
    then have gt: "length q < length a" by simp
    with len have "p ! length a = seg ! (length a - Suc (length q))"
      and "length a - Suc (length q) < length seg"
      by (auto simp: p nth_append nth_Cons')
    with at seg show False
      using nth_mem [of "length a - Suc (length q)" seg] by simp
  qed
  show ?thesis
  proof (cases "length a = length q")
    case True
    from tk have "take (length a) (take (Suc (length a)) p) = take (length a) (a @ ''/'')"
      by simp
    then have "take (length a) p = a"
      by (simp add: min_def)
    with True have "a = q"
      by (simp add: p)
    then show ?thesis
      by (simp add: isAncestorOrSelf_def)
  next
    case False
    with le have "Suc (length a) \<le> length q"
      by simp
    with tk have "take (Suc (length a)) q = a @ ''/''"
      by (simp add: p)
    then show ?thesis
      by (simp add: isAncestorOrSelf_def)
  qed
qed

lemma ascend_stop:
  "\<not> isHidden node \<or> parentPath (nodeId node) = None \<Longrightarrow> ascend isHidden node = node"
  by (subst ascend.simps) auto

lemma ascend_step:
  "isHidden node \<Longrightarrow> parentPath (nodeId node) = Some parent \<Longrightarrow>
     ascend isHidden node = ascend isHidden (node\<lparr>nodeId := parent\<rparr>)"
  by (subst ascend.simps) simp

lemma ascend_visible:
  assumes "\<And>e. parentPath (nodeId e) = None \<Longrightarrow> \<not> isHidden e"
  shows "\<not> isHidden (ascend isHidden node)"
  using assms
proof (induction isHidden node rule: ascend.induct)
  case (1 isHidden node)
  show ?case
  proof (cases "isHidden node")
    case False
    then show ?thesis by (simp add: ascend_stop)
  next
    case True
    with "1.prems" obtain parent where parent: "parentPath (nodeId node) = Some parent"
      by (cases "parentPath (nodeId node)") auto
    from "1.IH" [OF True parent "1.prems"] show ?thesis
      by (simp add: ascend_step [of isHidden node parent, OF True parent])
  qed
qed

lemma ascend_fields:
  "operation (ascend isHidden node) = operation node
   \<and> nodeFqn (ascend isHidden node) = nodeFqn node
   \<and> isAncestorOrSelf (nodeId (ascend isHidden node)) (nodeId node)"
proof (induction isHidden node rule: ascend.induct)
  case (1 isHidden node)
  show ?case
  proof (cases "isHidden node")
    case False
    then show ?thesis by (simp add: ascend_stop isAncestorOrSelf_def)
  next
    case True
    show ?thesis
    proof (cases "parentPath (nodeId node)")
      case None
      then show ?thesis by (simp add: ascend_stop isAncestorOrSelf_def)
    next
      case (Some parent)
      from "1.IH" [OF True Some] isAncestorOrSelf_parent [OF Some]
      have "operation (ascend isHidden (node\<lparr>nodeId := parent\<rparr>)) = operation node
        \<and> nodeFqn (ascend isHidden (node\<lparr>nodeId := parent\<rparr>)) = nodeFqn node
        \<and> isAncestorOrSelf (nodeId (ascend isHidden (node\<lparr>nodeId := parent\<rparr>))) (nodeId node)"
        by simp
      then show ?thesis
        by (simp add: ascend_step [of isHidden node parent, OF True Some])
    qed
  qed
qed

lemma ascend_nearest:
  assumes "isAncestorOrSelf a (nodeId node)"
    and "length (nodeId (ascend isHidden node)) < length a"
  shows "isHidden (node\<lparr>nodeId := a\<rparr>)"
  using assms
proof (induction isHidden node rule: ascend.induct)
  case (1 isHidden node)
  have stop: False if "ascend isHidden node = node"
    using that "1.prems" isAncestorOrSelf_length [of a "nodeId node"] by simp
  show ?case
  proof (cases "isHidden node")
    case False
    then have "ascend isHidden node = node" by (simp add: ascend_stop)
    with stop show ?thesis by blast
  next
    case True
    show ?thesis
    proof (cases "parentPath (nodeId node)")
      case None
      then have "ascend isHidden node = node" by (simp add: ascend_stop)
      with stop show ?thesis by blast
    next
      case (Some parent)
      note step = ascend_step [of isHidden node parent, OF True Some]
      show ?thesis
      proof (cases "a = nodeId node")
        case True
        with \<open>isHidden node\<close> show ?thesis by simp
      next
        case False
        from isAncestorOrSelf_of_parent [OF Some "1.prems"(1) False]
        have "isAncestorOrSelf a (nodeId (node\<lparr>nodeId := parent\<rparr>))"
          by simp
        moreover from "1.prems"(2) step
        have "length (nodeId (ascend isHidden (node\<lparr>nodeId := parent\<rparr>))) < length a"
          by simp
        ultimately have "isHidden (node\<lparr>nodeId := parent\<rparr>\<lparr>nodeId := a\<rparr>)"
          by (rule "1.IH" [OF True Some])
        then show ?thesis by simp
      qed
    qed
  qed
qed
lemma bridgeConnections_member:
  assumes "c \<in> set (bridgeConnections conns isHidden getNodeId getConnId)"
  shows "getNodeId (source c) \<noteq> getNodeId (target c)
    \<and> (\<exists>c0 \<in> set conns. source c = ascend isHidden (source c0)
          \<and> target c = ascend isHidden (target c0))"
proof -
  let ?asc = "\<lambda>connection. \<lparr> source = ascend isHidden (source connection),
                              target = ascend isHidden (target connection) \<rparr>"
  have "set (bridgeConnections conns isHidden getNodeId getConnId)
          \<subseteq> set (filter (\<lambda>connection. getNodeId (source connection) \<noteq> getNodeId (target connection))
                   (map ?asc conns))"
    unfolding bridgeConnections_def by (rule set_uniqBy)
  with assms
  have "c \<in> set (filter (\<lambda>connection. getNodeId (source connection) \<noteq> getNodeId (target connection))
                   (map ?asc conns))"
    by (rule rev_subsetD)
  then have "getNodeId (source c) \<noteq> getNodeId (target c)" and "c \<in> set (map ?asc conns)"
    by simp_all
  then show ?thesis
    by auto
qed

lemma nodePathOf_subset: "set (nodePathOf p) \<subseteq> set p"
proof (cases "matchNodePath [] p")
  case None
  then show ?thesis by (simp add: nodePathOf_def)
next
  case (Some g)
  from matchNodePath_Some [OF Some] have "set g \<subseteq> set p"
    by auto
  with Some show ?thesis by (simp add: nodePathOf_def)
qed

section \<open>The connection bridger's output\<close>

text \<open>
  C8, for the bridger modelled from the spec, called as \<open>connections\<close> calls it. When
  the root is visible (no path without a parent is hidden), every bridged connection has
  two endpoints that are not hidden, and their ids differ. Every bridged connection comes
  from a raw connection whose operations it keeps; each of its endpoint ids is the raw
  endpoint's path or one of its ancestors, and every path from the raw endpoint's path up
  to, but excluding, the endpoint id is hidden: the endpoint is the nearest visible
  ancestor.
\<close>

theorem bridged_endpoints_visible:
  assumes root: "\<forall>p. parentPath p = None \<longrightarrow> \<not> isNodeHidden (hiddenMap rawTree) p"
    and conns: "connections rawTree (Some rcs) = Some conns"
  shows "\<forall>c \<in> set conns.
       \<not> isNodeHidden (hiddenMap rawTree) (nodeId (source c))
     \<and> \<not> isNodeHidden (hiddenMap rawTree) (nodeId (target c))
     \<and> nodeId (source c) \<noteq> nodeId (target c)
     \<and> (\<exists>r \<in> set rcs.
           operation (source c) = sourceOp r \<and> operation (target c) = targetOp r
         \<and> isAncestorOrSelf (nodeId (source c)) (rawSource r)
         \<and> isAncestorOrSelf (nodeId (target c)) (rawTarget r)
         \<and> (\<forall>a. isAncestorOrSelf a (rawSource r) \<and> length (nodeId (source c)) < length a
                \<longrightarrow> isNodeHidden (hiddenMap rawTree) a)
         \<and> (\<forall>a. isAncestorOrSelf a (rawTarget r) \<and> length (nodeId (target c)) < length a
                \<longrightarrow> isNodeHidden (hiddenMap rawTree) a))"
proof
  fix c assume c: "c \<in> set conns"
  let ?hid = "\<lambda>node. isNodeHidden (hiddenMap rawTree) (nodeId node)"
  from conns obtain fqns where fqns: "nodeFqns rawTree = Some fqns"
    by (auto simp: connections_def split: option.splits)
  let ?mk = "\<lambda>connection.
      \<lparr> source = \<lparr> nodeId = rawSource connection,
                    nodeFqn = mapGet fqns (rawSource connection),
                    operation = sourceOp connection \<rparr>,
        target = \<lparr> nodeId = rawTarget connection,
                    nodeFqn = mapGet fqns (rawTarget connection),
                    operation = targetOp connection \<rparr> \<rparr>"
  let ?kept = "filter (\<lambda>connection. sourceOp connection \<noteq> Some ''invokeAsync''
                          \<and> targetOp connection \<noteq> Some ''invokeAsync'') rcs"
  from conns fqns
  have "conns = bridgeConnections (map ?mk ?kept) ?hid (\<lambda>node. nodeId node)
                  (\<lambda>connection.
                    nodeId (source connection) @ ''#''
                    @ templateStr (operation (source connection)) @ ''##''
                    @ nodeId (target connection) @ ''#''
                    @ templateStr (operation (target connection)))"
    by (simp add: connections_def)
  with c bridgeConnections_member
  have differ: "nodeId (source c) \<noteq> nodeId (target c)"
    and "\<exists>c0 \<in> set (map ?mk ?kept). source c = ascend ?hid (source c0)
            \<and> target c = ascend ?hid (target c0)"
    by blast+
  then obtain r where r: "r \<in> set rcs"
    and src: "source c = ascend ?hid (source (?mk r))"
    and tgt: "target c = ascend ?hid (target (?mk r))"
    by auto
  have vis: "\<not> ?hid (ascend ?hid e)" for e
    by (rule ascend_visible) (simp add: root)
  have near: "isNodeHidden (hiddenMap rawTree) a"
    if "isAncestorOrSelf a (nodeId e)" and "length (nodeId (ascend ?hid e)) < length a" for a e
    using ascend_nearest [of a e ?hid, OF that] by simp
  have "\<not> isNodeHidden (hiddenMap rawTree) (nodeId (source c))"
    and "\<not> isNodeHidden (hiddenMap rawTree) (nodeId (target c))"
    unfolding src tgt using vis by blast+
  moreover have "operation (source c) = sourceOp r" "operation (target c) = targetOp r"
    and "isAncestorOrSelf (nodeId (source c)) (rawSource r)"
    and "isAncestorOrSelf (nodeId (target c)) (rawTarget r)"
    unfolding src tgt
    using ascend_fields [of ?hid "source (?mk r)"] ascend_fields [of ?hid "target (?mk r)"]
    by simp_all
  moreover have "\<forall>a. isAncestorOrSelf a (rawSource r) \<and> length (nodeId (source c)) < length a
                \<longrightarrow> isNodeHidden (hiddenMap rawTree) a"
    unfolding src using near [of _ "source (?mk r)"] by simp
  moreover have "\<forall>a. isAncestorOrSelf a (rawTarget r) \<and> length (nodeId (target c)) < length a
                \<longrightarrow> isNodeHidden (hiddenMap rawTree) a"
    unfolding tgt using near [of _ "target (?mk r)"] by simp
  ultimately show "\<not> isNodeHidden (hiddenMap rawTree) (nodeId (source c))
     \<and> \<not> isNodeHidden (hiddenMap rawTree) (nodeId (target c))
     \<and> nodeId (source c) \<noteq> nodeId (target c)
     \<and> (\<exists>r \<in> set rcs.
           operation (source c) = sourceOp r \<and> operation (target c) = targetOp r
         \<and> isAncestorOrSelf (nodeId (source c)) (rawSource r)
         \<and> isAncestorOrSelf (nodeId (target c)) (rawTarget r)
         \<and> (\<forall>a. isAncestorOrSelf a (rawSource r) \<and> length (nodeId (source c)) < length a
                \<longrightarrow> isNodeHidden (hiddenMap rawTree) a)
         \<and> (\<forall>a. isAncestorOrSelf a (rawTarget r) \<and> length (nodeId (target c)) < length a
                \<longrightarrow> isNodeHidden (hiddenMap rawTree) a))"
    using differ r by blast
qed

text \<open>
  In the example tree the hidden paths are those of \<open>A\<close> and of its child \<open>B\<close>, so the
  root is visible. The raw connection from \<open>B\<close> is bridged to \<open>root/Default\<close>, the
  nearest visible ancestor of \<open>B\<close>.
\<close>

theorem bridged_endpoints_visible_witness:
  "connections (Some exTree) (Some exRaws) = Some exBridged
   \<and> rawSource (exRaws ! 0) = ''root/Default/A/B''
   \<and> nodeId (source (exBridged ! 0)) = ''root/Default''
   \<and> list_all (\<lambda>c. \<not> isNodeHidden (hiddenMap (Some exTree)) (nodeId (source c))
                 \<and> \<not> isNodeHidden (hiddenMap (Some exTree)) (nodeId (target c))
                 \<and> nodeId (source c) \<noteq> nodeId (target c)) exBridged"
proof -
  have root: "\<forall>p. parentPath p = None \<longrightarrow> \<not> isNodeHidden (hiddenMap (Some exTree)) p"
  proof (intro allI impI notI)
    fix p
    assume np: "parentPath p = None" and h: "isNodeHidden (hiddenMap (Some exTree)) p"
    from np have noslash: "CHR ''/'' \<notin> set p"
      by (simp add: parentPath_def split: if_splits)
    from h have "hiddenMap (Some exTree) (nodePathOf p) = Some True"
      by (simp add: isNodeHidden_def)
    then have "nodePathOf p = ''root/Default/A'' \<or> nodePathOf p = ''root/Default/A/B''"
      by (simp add: exTree_hiddenMap split: if_splits)
    then have "CHR ''/'' \<in> set (nodePathOf p)"
      by auto
    with nodePathOf_subset [of p] noslash show False
      by blast
  qed
  have "\<forall>c \<in> set exBridged.
          \<not> isNodeHidden (hiddenMap (Some exTree)) (nodeId (source c))
          \<and> \<not> isNodeHidden (hiddenMap (Some exTree)) (nodeId (target c))
          \<and> nodeId (source c) \<noteq> nodeId (target c)"
  proof
    fix c assume "c \<in> set exBridged"
    from bspec [OF bridged_endpoints_visible [OF root exTree_connections] this]
    show "\<not> isNodeHidden (hiddenMap (Some exTree)) (nodeId (source c))
          \<and> \<not> isNodeHidden (hiddenMap (Some exTree)) (nodeId (target c))
          \<and> nodeId (source c) \<noteq> nodeId (target c)"
      by simp
  qed
  then show ?thesis
    by (simp add: list_all_iff exTree_connections)
       (simp add: exRaws_def rawConn_def exBridged_def)
qed

end
